theory Spec2Isabelle
  imports Main "HOL-Library.Sublist"
begin

section \<open>Python strings\<close>

text \<open>
  A Python \<open>str\<close> is a sequence of Unicode code points, so a character is modelled by
  its code point and a string by a list of code points.  The bullet glyph U+2022 is one
  character, as it is for \<open>re\<close> and \<open>str.strip\<close>.
\<close>

type_synonym uchar = nat
type_synonym ustring = "nat list"

definition u :: "string \<Rightarrow> ustring" where
  "u s = map of_char s"

definition NL :: uchar where "NL = 10"
definition SPACE :: uchar where "SPACE = 32"
definition STAR :: uchar where "STAR = 42"
definition HYPHEN :: uchar where "HYPHEN = 45"
definition DOT :: uchar where "DOT = 46"
definition QUOTE :: uchar where "QUOTE = 39"
definition BACKSLASH :: uchar where "BACKSLASH = 92"
definition LETTER_n :: uchar where "LETTER_n = 110"
definition BULLET :: uchar where "BULLET = 8226"

text \<open>
  \<open>Py_UNICODE_ISSPACE\<close>: the characters that \<open>str.strip()\<close> removes and that
  \<open>\s\<close> matches in a \<open>str\<close> pattern.
\<close>

definition isspace :: "uchar \<Rightarrow> bool" where
  "isspace c \<longleftrightarrow>
     (9 \<le> c \<and> c \<le> 13) \<or> (28 \<le> c \<and> c \<le> 32) \<or> c = 133 \<or> c = 160 \<or> c = 5760 \<or>
     (8192 \<le> c \<and> c \<le> 8202) \<or> c = 8232 \<or> c = 8233 \<or> c = 8239 \<or> c = 8287 \<or> c = 12288"

text \<open>
  \<open>Py_UNICODE_ISDECIMAL\<close>, what \<open>\d\<close> matches in a \<open>str\<close> pattern: the decimal
  digits of every script (Unicode 14, as shipped with CPython 3.11).  Each script's digits
  are ten consecutive code points; the list holds the code point of each zero.
\<close>

definition decimal_zeros :: "nat list" where
  "decimal_zeros =
    [48, 1632, 1776, 1984, 2406, 2534, 2662, 2790, 2918, 3046, 3174, 3302, 3430, 3558,
     3664, 3792, 3872, 4160, 4240, 6112, 6160, 6470, 6608, 6784, 6800, 6992, 7088, 7232,
     7248, 42528, 43216, 43264, 43472, 43504, 43600, 44016, 65296, 66720, 68912, 69734,
     69872, 69942, 70096, 70384, 70736, 70864, 71248, 71360, 71472, 71904, 72016, 72784,
     73040, 73120, 92768, 92864, 93008, 120782, 120792, 120802, 120812, 120822, 123200,
     123632, 125264, 130032]"

definition isdecimal :: "uchar \<Rightarrow> bool" where
  "isdecimal c \<longleftrightarrow> list_ex (\<lambda>z. z \<le> c \<and> c < z + 10) decimal_zeros"

definition strip :: "ustring \<Rightarrow> ustring" where
  "strip s = rev (dropWhile isspace (rev (dropWhile isspace s)))"

text \<open>\<open>s.split('\n')\<close>: always at least one piece.\<close>

fun split_nl :: "ustring \<Rightarrow> ustring list" where
  "split_nl [] = [[]]"
| "split_nl (c # cs) =
     (if c = NL then [] # split_nl cs
      else (case split_nl cs of [] \<Rightarrow> [[c]] | l # ls \<Rightarrow> (c # l) # ls))"

text \<open>\<open>'\n'.join(lines)\<close>\<close>

fun join_nl :: "ustring list \<Rightarrow> ustring" where
  "join_nl [] = []"
| "join_nl [l] = l"
| "join_nl (l # m # ls) = l @ NL # join_nl (m # ls)"

text \<open>\<open>sub in s\<close> and \<open>s.startswith(sub)\<close>\<close>

fun contains :: "ustring \<Rightarrow> ustring \<Rightarrow> bool" where
  "contains sub [] = (sub = [])"
| "contains sub (c # cs) = (prefix sub (c # cs) \<or> contains sub cs)"

definition startswith :: "ustring \<Rightarrow> ustring \<Rightarrow> bool" where
  "startswith sub s = prefix sub s"

section \<open>The regular expressions of the sanitizer\<close>

text \<open>
  \<open>re.sub(r'\*\*(.*?)\*\*', r'\1', text)\<close>.  The scan goes left to right.  At a
  position holding \<open>**\<close> the lazy group looks for the nearest closing \<open>**\<close>, giving up
  at a line break (\<open>.\<close> does not match \<open>\n\<close>); on success the inner text replaces the
  match and the scan resumes after the closing pair, otherwise the character is copied.
\<close>

fun find_close_bold :: "ustring \<Rightarrow> (ustring \<times> ustring) option" where
  "find_close_bold [] = None"
| "find_close_bold [c] = None"
| "find_close_bold (c # d # cs) =
     (if c = STAR \<and> d = STAR then Some ([], cs)
      else if c = NL then None
      else map_option (\<lambda>(inner, rest). (c # inner, rest)) (find_close_bold (d # cs)))"

lemma find_close_bold_length:
  "find_close_bold s = Some (inner, rest) \<Longrightarrow> length rest < length s"
  by (induction s arbitrary: inner rest rule: find_close_bold.induct)
     (auto split: if_splits)

function strip_bold :: "ustring \<Rightarrow> ustring" where
  "strip_bold [] = []"
| "strip_bold [c] = [c]"
| "strip_bold (c # d # cs) =
     (if c = STAR \<and> d = STAR then
        (case find_close_bold cs of
           Some (inner, rest) \<Rightarrow> inner @ strip_bold rest
         | None \<Rightarrow> c # strip_bold (d # cs))
      else c # strip_bold (d # cs))"
  by pat_completeness auto
termination
  by (relation "measure length") (auto dest: find_close_bold_length)

text \<open>\<open>re.sub(r'\*(.*?)\*', r'\1', text)\<close>, in the same way with single asterisks.\<close>

fun find_close_italic :: "ustring \<Rightarrow> (ustring \<times> ustring) option" where
  "find_close_italic [] = None"
| "find_close_italic (c # cs) =
     (if c = STAR then Some ([], cs)
      else if c = NL then None
      else map_option (\<lambda>(inner, rest). (c # inner, rest)) (find_close_italic cs))"

lemma find_close_italic_length:
  "find_close_italic s = Some (inner, rest) \<Longrightarrow> length rest < length s"
  by (induction s arbitrary: inner rest) (auto split: if_splits)

function strip_italic :: "ustring \<Rightarrow> ustring" where
  "strip_italic [] = []"
| "strip_italic (c # cs) =
     (if c = STAR then
        (case find_close_italic cs of
           Some (inner, rest) \<Rightarrow> inner @ strip_italic rest
         | None \<Rightarrow> c # strip_italic cs)
      else c # strip_italic cs)"
  by pat_completeness auto
termination
  by (relation "measure length") (auto dest: find_close_italic_length)

text \<open>
  \<open>re.sub(r'^.*?frag.*$', '', text, flags=re.MULTILINE)\<close>.  With \<open>MULTILINE\<close>,
  \<open>^\<close> and \<open>$\<close> anchor at the line breaks and \<open>.\<close> never crosses one, so a match is
  exactly one whole line containing the fragment; it is replaced by the empty string and
  the line breaks stay.
\<close>

definition remove_lines :: "ustring \<Rightarrow> ustring \<Rightarrow> ustring" where
  "remove_lines frag text =
     join_nl (map (\<lambda>l. if contains frag l then [] else l) (split_nl text))"

text \<open>\<open>text.replace('\\n', '\n')\<close>: backslash followed by \<open>n\<close> becomes a line break.\<close>

fun replace_escaped_nl :: "ustring \<Rightarrow> ustring" where
  "replace_escaped_nl [] = []"
| "replace_escaped_nl [c] = [c]"
| "replace_escaped_nl (c # d # cs) =
     (if c = BACKSLASH \<and> d = LETTER_n then NL # replace_escaped_nl cs
      else c # replace_escaped_nl (d # cs))"

text \<open>
  \<open>re.sub(r'\s{2,}', ' ', text)\<close>: every maximal run of two or more whitespace
  characters (line breaks included) becomes one space.
\<close>

function collapse_ws :: "ustring \<Rightarrow> ustring" where
  "collapse_ws [] = []"
| "collapse_ws [c] = [c]"
| "collapse_ws (c # d # cs) =
     (if isspace c \<and> isspace d then SPACE # collapse_ws (dropWhile isspace cs)
      else c # collapse_ws (d # cs))"
  by pat_completeness auto
termination
  by (relation "measure length") (auto simp: less_Suc_eq_le intro: le_trans [OF length_dropWhile_le])

section \<open>Response sanitizer\<close>

text \<open>The loop of \<open>_clean_response\<close> over the lines, \<open>acc\<close> being the list \<open>lines\<close>.\<close>

definition keeps_line :: "ustring \<Rightarrow> bool" where
  "keeps_line line \<longleftrightarrow>
     line \<noteq> [] \<and> \<not> startswith (u ''Example:'') line \<and>
     \<not> contains (u ''in real-world applications'') line"

fun clean_lines :: "ustring list \<Rightarrow> ustring list \<Rightarrow> ustring list" where
  "clean_lines [] acc = acc"
| "clean_lines (l # ls) acc =
     (let line = strip l
      in if keeps_line line then clean_lines ls (acc @ [line]) else clean_lines ls acc)"

definition clean_response :: "ustring \<Rightarrow> ustring" where
  "clean_response text0 =
     (let text1 = strip_bold text0;
          text2 = strip_italic text1;
          text3 = remove_lines (u ''model='') text2;
          text4 = remove_lines (u ''created_at='') text3;
          text5 = remove_lines (u ''done='') text4;
          text6 = remove_lines (u ''message='') text5;
          text7 = replace_escaped_nl text6;
          text8 = collapse_ws text7
      in join_nl (clean_lines (split_nl text8) []))"

section \<open>Bullet extractor\<close>

text \<open>\<open>re.sub(r'^[\<bullet>\-\*]\s*', '', line)\<close> on one line (no \<open>MULTILINE\<close>).\<close>

definition is_glyph :: "uchar \<Rightarrow> bool" where
  "is_glyph c \<longleftrightarrow> c = BULLET \<or> c = HYPHEN \<or> c = STAR"

fun strip_glyph :: "ustring \<Rightarrow> ustring" where
  "strip_glyph [] = []"
| "strip_glyph (c # cs) = (if is_glyph c then dropWhile isspace cs else c # cs)"

text \<open>\<open>re.sub(r'^\d+\.\s*', '', line)\<close>\<close>

definition strip_number :: "ustring \<Rightarrow> ustring" where
  "strip_number line =
     (case dropWhile isdecimal line of
        [] \<Rightarrow> line
      | c # rest \<Rightarrow>
          if takeWhile isdecimal line \<noteq> [] \<and> c = DOT then dropWhile isspace rest else line)"

definition clean_bullet :: "ustring \<Rightarrow> ustring" where
  "clean_bullet line = strip_italic (strip_bold (strip_number (strip_glyph line)))"

fun bullet_loop :: "ustring list \<Rightarrow> ustring list \<Rightarrow> ustring list" where
  "bullet_loop [] bullet_points = bullet_points"
| "bullet_loop (l # ls) bullet_points =
     (let line = strip l
      in if line \<noteq> [] then
           (let line' = clean_bullet line
            in if line' \<noteq> [] then bullet_loop ls (bullet_points @ [line'])
               else bullet_loop ls bullet_points)
         else bullet_loop ls bullet_points)"

definition extract_bullet_points :: "ustring \<Rightarrow> ustring list" where
  "extract_bullet_points text = bullet_loop (split_nl text) []"

section \<open>Content requester\<close>

text \<open>
  Exceptions are values.  \<open>LibraryError\<close> stands for whatever a library call raises
  (\<open>ollama.chat\<close>, \<open>fitz.open\<close>, \<open>convert_from_path\<close>, \<open>pytesseract\<close>), with its
  message.
\<close>

datatype error = LibraryError ustring | TypeError | ValueError | IndexError | ZeroDivisionError

text \<open>
  A Python value that is a \<open>str\<close> or is not (\<open>None\<close>, say): \<open>re.sub\<close> raises
  \<open>TypeError\<close> on the latter.
\<close>

datatype pyval = Str ustring | NotStr

text \<open>
  The shapes of a reply that \<open>generate_response\<close> tells apart.  Where the code calls
  \<open>str()\<close> on an object, the constructor carries that string.
\<close>

datatype message =
    MsgDictContent pyval   \<comment> \<open>a dict with key \<open>'content'\<close>\<close>
  | MsgAttrContent pyval   \<comment> \<open>an object with attribute \<open>content\<close>\<close>
  | MsgOther ustring       \<comment> \<open>anything else, with \<open>str(response['message'])\<close>\<close>

datatype response =
    RespAttr pyval         \<comment> \<open>\<open>response.message.content\<close> exists\<close>
  | RespDictMessage message \<comment> \<open>a dict with key \<open>'message'\<close>\<close>
  | RespDictOther ustring  \<comment> \<open>a dict without that key, with \<open>str(response)\<close>\<close>
  | RespOther ustring      \<comment> \<open>any other object, with \<open>str(response)\<close>\<close>

text \<open>
  \<open>re.search(r"content='(.*?)'", result, re.DOTALL)\<close>, group 1: at the leftmost
  position where \<open>content='\<close> starts and a closing quote follows, the text up to the
  nearest closing quote.
\<close>

fun search_content :: "ustring \<Rightarrow> ustring option" where
  "search_content [] = None"
| "search_content (c # cs) =
     (if prefix (u ''content='' @ [QUOTE]) (c # cs) \<and> QUOTE \<in> set (drop 9 (c # cs))
      then Some (takeWhile (\<lambda>x. x \<noteq> QUOTE) (drop 9 (c # cs)))
      else search_content cs)"

fun extract_content :: "response \<Rightarrow> pyval" where
  "extract_content (RespAttr v) = v"
| "extract_content (RespDictMessage (MsgDictContent v)) = v"
| "extract_content (RespDictMessage (MsgAttrContent v)) = v"
| "extract_content (RespDictMessage (MsgOther s)) = Str s"
| "extract_content (RespDictOther s) =
     Str (case search_content s of Some group1 \<Rightarrow> group1 | None \<Rightarrow> s)"
| "extract_content (RespOther s) = Str s"

text \<open>
  What lies outside the program: the model server and the Unicode case mapping.
  \<open>ollama_chat n model prompt\<close> is the outcome of the \<open>n\<close>-th call of
  \<open>ollama.chat\<close> of the run (counted from 0), so that two calls with one prompt may
  differ.  \<open>unicode_lower\<close> is \<open>str.lower()\<close> on strings that are not pure ASCII.
\<close>

record world =
  ollama_chat :: "nat \<Rightarrow> ustring \<Rightarrow> ustring \<Rightarrow> error + response"
  unicode_lower :: "ustring \<Rightarrow> ustring"

definition ascii_lower :: "uchar \<Rightarrow> uchar" where
  "ascii_lower c = (if 65 \<le> c \<and> c \<le> 90 then c + 32 else c)"

definition lower :: "world \<Rightarrow> ustring \<Rightarrow> ustring" where
  "lower w s = (if list_all (\<lambda>c. c < 128) s then map ascii_lower s else unicode_lower w s)"

type_synonym rgb = "nat \<times> nat \<times> nat"

record para =
  ptext :: ustring
  plevel :: nat
  pcolor :: "rgb option"

record slide =
  header :: ustring
  text_frame :: "para list"

text \<open>
  The fields of \<open>PresentationGenerator\<close> (\<open>topic\<close> is called \<open>text\<close> in
  \<open>pdf_to_ppt_backup.py\<close>; \<open>bullet_colors\<close> is \<open>theme['bullet_colors']\<close>), and the
  prompts sent to \<open>ollama.chat\<close> so far, oldest first, which the program does not keep
  but the claims speak about.
\<close>

record generator =
  topic :: ustring
  model :: ustring
  response_cache :: "ustring \<rightharpoonup> ustring"
  bullet_colors :: "rgb list"
  slides :: "slide list"
  requests :: "ustring list"

definition fallback_bullets :: ustring where
  "fallback_bullets =
     BULLET # u '' Important historical milestone\<newline>'' @
     BULLET # u '' Key development in AI\<newline>'' @
     BULLET # u '' Significant innovation''"

definition fallback_sentence :: ustring where
  "fallback_sentence =
     u ''The history of artificial intelligence showcases humanity'' @ QUOTE #
     u ''s quest to create machines that can think and learn.''"

definition fallback_conclusion :: ustring where
  "fallback_conclusion =
     u ''The history of AI demonstrates our continuous progress in creating intelligent systems. From early rule-based systems to modern neural networks, each advancement brings us closer to machines that can truly think.''"

definition fallback_failed :: ustring where
  "fallback_failed = u ''Content generation failed. Please try again with a different prompt.''"

text \<open>The \<open>except\<close> branch; its argument is \<open>prompt.lower()\<close>.\<close>

definition fallback_content :: "ustring \<Rightarrow> ustring" where
  "fallback_content lowered =
     (if contains (u ''bullet points'') lowered then fallback_bullets
      else if contains (u ''one line'') lowered \<or> contains (u ''one clear'') lowered
        then fallback_sentence
      else if contains (u ''conclusion'') lowered then fallback_conclusion
      else fallback_failed)"

text \<open>The body of the \<open>try\<close> up to the cleaned result.\<close>

definition request_and_clean :: "world \<Rightarrow> generator \<Rightarrow> ustring \<Rightarrow> error + ustring" where
  "request_and_clean w g prompt =
     (case ollama_chat w (length (requests g)) (model g) prompt of
        Inl e \<Rightarrow> Inl e
      | Inr response \<Rightarrow>
          (case extract_content response of
             NotStr \<Rightarrow> Inl TypeError
           | Str result \<Rightarrow> Inr (clean_response result)))"

definition generate_response :: "world \<Rightarrow> generator \<Rightarrow> ustring \<Rightarrow> ustring \<times> generator" where
  "generate_response w g prompt =
     (case response_cache g prompt of
        Some cached \<Rightarrow> (cached, g)
      | None \<Rightarrow>
          (let g' = g\<lparr>requests := requests g @ [prompt]\<rparr>
           in case request_and_clean w g prompt of
                Inr result \<Rightarrow> (result, g'\<lparr>response_cache := (response_cache g)(prompt \<mapsto> result)\<rparr>)
              | Inl e \<Rightarrow> (fallback_content (lower w prompt), g')))"

section \<open>Preview slide\<close>















section \<open>Document classifier and text extractor\<close>

text \<open>
  The file system and the recognition libraries: \<open>fitz_open path\<close> gives the text of
  each page of the document (\<open>get_text("text")\<close>), \<open>convert_from_path\<close> its page images,
  \<open>image_to_string\<close> the recognised text of an image.  Images are opaque handles.
\<close>

type_synonym image = nat

record pdf_world =
  fitz_open :: "ustring \<Rightarrow> error + ustring list"
  convert_from_path :: "ustring \<Rightarrow> error + image list"
  image_to_string :: "image \<Rightarrow> error + ustring"

text \<open>What the extractor does to the outside, in order, tagged by the method doing it.\<close>

datatype event =
    ClassifierOpen ustring   \<comment> \<open>\<open>fitz.open\<close> in \<open>is_scanned_pdf\<close>\<close>
  | ExtractorOpen ustring    \<comment> \<open>\<open>fitz.open\<close> in \<open>extract_text_from_normal_pdf\<close>\<close>
  | Render ustring           \<comment> \<open>\<open>convert_from_path\<close>\<close>
  | Recognise image          \<comment> \<open>\<open>pytesseract.image_to_string\<close>\<close>

record pdf_extractor =
  pdf_path :: ustring
  extracted_text :: "ustring option"
  is_scanned :: bool

definition is_scanned_pdf ::
  "pdf_world \<Rightarrow> ustring \<Rightarrow> event list \<Rightarrow> (error + bool) \<times> event list" where
  "is_scanned_pdf w path log =
     (let log1 = log @ [ClassifierOpen path]
      in case fitz_open w path of
           Inl e \<Rightarrow> (Inl e, log1)
         | Inr doc \<Rightarrow>
             (case doc of
                [] \<Rightarrow> (Inl IndexError, log1)
              | first_page # later_pages \<Rightarrow> (Inr (length (strip first_page) = 0), log1)))"

definition extract_text_from_normal_pdf ::
  "pdf_world \<Rightarrow> ustring \<Rightarrow> event list \<Rightarrow> (error + ustring) \<times> event list" where
  "extract_text_from_normal_pdf w path log =
     (let log1 = log @ [ExtractorOpen path]
      in case fitz_open w path of
           Inl e \<Rightarrow> (Inl e, log1)
         | Inr doc \<Rightarrow> (Inr (join_nl doc), log1))"

text \<open>The list comprehension over the images stops at the first failing page.\<close>

fun recognise_all ::
  "pdf_world \<Rightarrow> image list \<Rightarrow> ustring list \<Rightarrow> event list \<Rightarrow>
   (error + ustring list) \<times> event list" where
  "recognise_all w [] acc log = (Inr acc, log)"
| "recognise_all w (img # imgs) acc log =
     (case image_to_string w img of
        Inl e \<Rightarrow> (Inl e, log @ [Recognise img])
      | Inr s \<Rightarrow> recognise_all w imgs (acc @ [s]) (log @ [Recognise img]))"

definition extract_text_from_scanned_pdf ::
  "pdf_world \<Rightarrow> ustring \<Rightarrow> event list \<Rightarrow> (error + ustring) \<times> event list" where
  "extract_text_from_scanned_pdf w path log =
     (let log1 = log @ [Render path]
      in case convert_from_path w path of
           Inl e \<Rightarrow> (Inl e, log1)
         | Inr images \<Rightarrow>
             (case recognise_all w images [] log1 of
                (Inl e, log2) \<Rightarrow> (Inl e, log2)
              | (Inr texts, log2) \<Rightarrow> (Inr (join_nl texts), log2)))"

definition extract_text ::
  "pdf_world \<Rightarrow> ustring \<Rightarrow> event list \<Rightarrow> (error + ustring) \<times> event list" where
  "extract_text w path log =
     (case is_scanned_pdf w path log of
        (Inl e, log1) \<Rightarrow> (Inl e, log1)
      | (Inr scanned, log1) \<Rightarrow>
          if scanned then extract_text_from_scanned_pdf w path log1
          else extract_text_from_normal_pdf w path log1)"

text \<open>\<open>PDFExtractor.__init__\<close>: an exception leaves no object.\<close>

definition pdf_extractor_init ::
  "pdf_world \<Rightarrow> ustring \<Rightarrow> event list \<Rightarrow> (error + pdf_extractor) \<times> event list" where
  "pdf_extractor_init w path log =
     (let self0 = \<lparr>pdf_path = path, extracted_text = None, is_scanned = False\<rparr>
      in case is_scanned_pdf w path log of
           (Inl e, log1) \<Rightarrow> (Inl e, log1)
         | (Inr scanned, log1) \<Rightarrow>
             (let self1 = self0\<lparr>is_scanned := scanned\<rparr>
              in case extract_text w path log1 of
                   (Inl e, log2) \<Rightarrow> (Inl e, log2)
                 | (Inr t, log2) \<Rightarrow> (Inr (self1\<lparr>extracted_text := Some t\<rparr>), log2)))"

section \<open>Notions the properties are stated in\<close>

text \<open>The bullet extractor as the specification words it, line by line.\<close>

definition spec_strip_glyph :: "ustring \<Rightarrow> ustring" where
  "spec_strip_glyph l =
     (if l \<noteq> [] \<and> hd l \<in> {BULLET, HYPHEN, STAR} then dropWhile isspace (tl l) else l)"

text \<open>
  What follows a leading \<open><digits>.\<close>, if the line starts with one; \<open>seen\<close> tells
  whether a digit has been read.
\<close>

fun spec_after_number :: "bool \<Rightarrow> ustring \<Rightarrow> ustring option" where
  "spec_after_number seen [] = None"
| "spec_after_number seen (c # cs) =
     (if isdecimal c then spec_after_number True cs
      else if seen \<and> c = DOT then Some cs else None)"

definition spec_strip_numbering :: "ustring \<Rightarrow> ustring" where
  "spec_strip_numbering l =
     (case spec_after_number False l of Some rest \<Rightarrow> dropWhile isspace rest | None \<Rightarrow> l)"

text \<open>
  The lines of a text, read character by character; \<open>line\<close> is the line read so far.
\<close>

fun spec_lines_from :: "ustring \<Rightarrow> ustring \<Rightarrow> ustring list" where
  "spec_lines_from line [] = [line]"
| "spec_lines_from line (c # cs) =
     (if c = NL then line # spec_lines_from [] cs else spec_lines_from (line @ [c]) cs)"

text \<open>Trimming: whitespace is dropped at the front, and at the back where only whitespace follows.\<close>

fun spec_trim_left :: "ustring \<Rightarrow> ustring" where
  "spec_trim_left [] = []"
| "spec_trim_left (c # cs) = (if isspace c then spec_trim_left cs else c # cs)"

fun spec_trim_right :: "ustring \<Rightarrow> ustring" where
  "spec_trim_right [] = []"
| "spec_trim_right (c # cs) = (if list_all isspace (c # cs) then [] else c # spec_trim_right cs)"

definition spec_trim :: "ustring \<Rightarrow> ustring" where
  "spec_trim l = spec_trim_right (spec_trim_left l)"

text \<open>
  Emphasis markup: a wrapper is a delimiter, an inner text without line break and the
  nearest following delimiter; it is replaced by the inner text, first for \<open>**\<close>, then
  for \<open>*\<close>.  \<open>spec_closing d s\<close> is the length of the inner text when \<open>s\<close> follows
  an opening delimiter.
\<close>

fun spec_closing :: "ustring \<Rightarrow> ustring \<Rightarrow> nat option" where
  "spec_closing d [] = None"
| "spec_closing d (c # cs) =
     (if prefix d (c # cs) then Some 0
      else if c = NL then None
      else map_option Suc (spec_closing d cs))"

function spec_unwrap :: "ustring \<Rightarrow> ustring \<Rightarrow> ustring" where
  "spec_unwrap d [] = []"
| "spec_unwrap d (c # cs) =
     (if d \<noteq> [] \<and> prefix d (c # cs) then
        (case spec_closing d (drop (length d) (c # cs)) of
           Some n \<Rightarrow>
             take n (drop (length d) (c # cs)) @
             spec_unwrap d (drop (length d + n + length d) (c # cs))
         | None \<Rightarrow> c # spec_unwrap d cs)
      else c # spec_unwrap d cs)"
  by pat_completeness auto
termination
  by (relation "measure (\<lambda>(d, s). length s)") auto

declare spec_unwrap.simps [simp del]

definition spec_strip_emphasis :: "ustring \<Rightarrow> ustring" where
  "spec_strip_emphasis l = spec_unwrap [STAR] (spec_unwrap [STAR, STAR] l)"

definition spec_extract_bullets :: "ustring \<Rightarrow> ustring list" where
  "spec_extract_bullets txt =
     filter (\<lambda>l. l \<noteq> [])
       (map (\<lambda>l. spec_strip_emphasis (spec_strip_numbering (spec_strip_glyph l)))
          (filter (\<lambda>l. l \<noteq> []) (map spec_trim (spec_lines_from [] txt))))"







text \<open>How often \<open>is_scanned_pdf\<close> has opened a document.\<close>

definition classifier_opens :: "event list \<Rightarrow> nat" where
  "classifier_opens log = length (filter (\<lambda>e. case e of ClassifierOpen p \<Rightarrow> True | _ \<Rightarrow> False) log)"

text \<open>
  A file system with a scanned document (blank first page, text further on) and a
  text document.
\<close>

definition demo_pdf_world :: pdf_world where
  "demo_pdf_world =
     \<lparr>fitz_open = (\<lambda>path.
        if path = u ''scan.pdf'' then Inr [u '' \<newline>'', u ''hidden text layer'']
        else if path = u ''report.pdf'' then Inr [u ''Title'', []]
        else Inl (LibraryError (u ''no such file''))),
      convert_from_path = (\<lambda>path.
        if path = u ''scan.pdf'' then Inr [0, 1]
        else Inl (LibraryError (u ''no such file''))),
      image_to_string = (\<lambda>img. Inr (u ''recognised''))\<rparr>"




text \<open>
  A string has a numbering prefix when it starts with digits followed by a dot; it is
  free of bullet marks when it holds no bullet glyph and has no numbering prefix.
\<close>

definition has_number_prefix :: "ustring \<Rightarrow> bool" where
  "has_number_prefix s \<longleftrightarrow>
     takeWhile isdecimal s \<noteq> [] \<and>
     (case dropWhile isdecimal s of [] \<Rightarrow> False | c # rest \<Rightarrow> c = DOT)"

definition bullet_free :: "ustring \<Rightarrow> bool" where
  "bullet_free s \<longleftrightarrow> list_all (\<lambda>c. \<not> is_glyph c) s \<and> \<not> has_number_prefix s"

text \<open>
  The lines of a simple list.  A marker is nothing, or a bullet glyph and blanks, or
  digits with a dot and blanks, or a glyph, blanks, digits with a dot and blanks.  A
  plain body is trimmed and non-empty, holds no bullet glyph and starts with no digit.
\<close>

definition blank :: "ustring \<Rightarrow> bool" where
  "blank ws \<longleftrightarrow> list_all (\<lambda>c. isspace c \<and> c \<noteq> NL) ws"

definition number_marker :: "ustring \<Rightarrow> bool" where
  "number_marker m \<longleftrightarrow>
     takeWhile isdecimal m \<noteq> [] \<and>
     (case dropWhile isdecimal m of [] \<Rightarrow> False | c # ws \<Rightarrow> c = DOT \<and> blank ws)"

fun item_marker :: "ustring \<Rightarrow> bool" where
  "item_marker [] = True"
| "item_marker (c # cs) =
     (if is_glyph c
      then blank (takeWhile isspace cs) \<and>
           (dropWhile isspace cs = [] \<or> number_marker (dropWhile isspace cs))
      else number_marker (c # cs))"

definition plain :: "ustring \<Rightarrow> bool" where
  "plain b \<longleftrightarrow>
     b \<noteq> [] \<and> list_all (\<lambda>c. \<not> is_glyph c \<and> c \<noteq> NL) b \<and>
     \<not> isspace (hd b) \<and> \<not> isdecimal (hd b) \<and> \<not> isspace (last b)"

text \<open>
  A text holds no emphasis wrapper when no asterisk is followed by another asterisk on
  the same line, and no echo line when none of its lines holds one of the four
  fragments of an echoed API reply.
\<close>

fun no_wrapper :: "ustring \<Rightarrow> bool" where
  "no_wrapper [] = True"
| "no_wrapper (c # cs) =
     ((c \<noteq> STAR \<or> STAR \<notin> set (takeWhile (\<lambda>x. x \<noteq> NL) cs)) \<and> no_wrapper cs)"

definition echo_fragments :: "ustring list" where
  "echo_fragments = [u ''model='', u ''created_at='', u ''done='', u ''message='']"

definition no_echo :: "ustring \<Rightarrow> bool" where
  "no_echo t \<longleftrightarrow>
     list_all (\<lambda>l. list_all (\<lambda>frag. \<not> contains frag l) echo_fragments) (split_nl t)"

text \<open>
  Two neighbouring characters: not both whitespace; not a backslash followed by
  \<open>n\<close>.
\<close>

definition no_double_space :: "uchar \<Rightarrow> uchar \<Rightarrow> bool" where
  "no_double_space a b \<longleftrightarrow> \<not> (isspace a \<and> isspace b)"

definition no_escape :: "uchar \<Rightarrow> uchar \<Rightarrow> bool" where
  "no_escape a b \<longleftrightarrow> \<not> (a = BACKSLASH \<and> b = LETTER_n)"

text \<open>
  A line as the sanitizer leaves it: non-empty, trimmed, kept by the filter, without a
  run of whitespace and without an escaped line break.
\<close>

definition tidy_line :: "ustring \<Rightarrow> bool" where
  "tidy_line l \<longleftrightarrow>
     l \<noteq> [] \<and> \<not> isspace (hd l) \<and> \<not> isspace (last l) \<and> NL \<notin> set l \<and> keeps_line l \<and>
     successively no_double_space l \<and> successively no_escape l"

text \<open>A reply with emphasis, an echoed line, runs of whitespace and an example line.\<close>

definition noisy_reply :: ustring where
  "noisy_reply =
     u ''**Intro**  to *AI*\<newline>model=llama3 done=True\<newline>\<newline>- first   point\<newline>Example: skip me''"

text \<open>
  Every line of the input that holds no \<open>model=\<close> is a line of the sanitizer's
  output.
\<close>

definition other_lines_kept :: "ustring \<Rightarrow> bool" where
  "other_lines_kept x \<longleftrightarrow>
     list_all (\<lambda>l. contains (u ''model='') l \<or> l \<in> set (split_nl (clean_response x)))
       (split_nl x)"

text \<open>The steps of \<open>_clean_response\<close> behind the removal of the \<open>model=\<close> lines.\<close>

definition after_model_lines :: "ustring \<Rightarrow> ustring" where
  "after_model_lines text3 =
     (let text4 = remove_lines (u ''created_at='') text3;
          text5 = remove_lines (u ''done='') text4;
          text6 = remove_lines (u ''message='') text5;
          text7 = replace_escaped_nl text6;
          text8 = collapse_ws text7
      in join_nl (clean_lines (split_nl text8) []))"



section \<open>Evaluation\<close>

lemmas char_defs =
  NL_def SPACE_def STAR_def HYPHEN_def DOT_def QUOTE_def BACKSLASH_def LETTER_n_def BULLET_def

lemmas string_defs =
  char_defs u_def isspace_def isdecimal_def decimal_zeros_def strip_def startswith_def
  is_glyph_def

lemmas sanitizer_defs =
  string_defs remove_lines_def keeps_line_def clean_response_def strip_number_def
  clean_bullet_def extract_bullet_points_def


lemmas pdf_defs = pdf_extractor_init_def extract_text_def is_scanned_pdf_def
  extract_text_from_scanned_pdf_def extract_text_from_normal_pdf_def demo_pdf_world_def

section \<open>Bullet extractor: properties\<close>

lemma dropWhile_Cons_ex: "dropWhile P l = c # r \<Longrightarrow> \<exists>x\<in>set l. \<not> P x"
  by (metis dropWhile_eq_Nil_conv list.discI)

lemma spec_after_number_eq:
  "spec_after_number seen l =
     (case dropWhile isdecimal l of [] \<Rightarrow> None
      | c # rest \<Rightarrow> if (seen \<or> takeWhile isdecimal l \<noteq> []) \<and> c = DOT then Some rest else None)"
proof (induction l arbitrary: seen)
  case Nil
  show ?case by simp
next
  case (Cons a l)
  show ?case
  proof (cases "isdecimal a")
    case True
    then show ?thesis by (auto simp: Cons.IH split: list.splits dest: dropWhile_Cons_ex)
  next
    case False
    then show ?thesis by (simp split: list.splits)
  qed
qed

lemma spec_strip_numbering_eq: "spec_strip_numbering l = strip_number l"
  unfolding spec_strip_numbering_def strip_number_def spec_after_number_eq
  by (cases "dropWhile isdecimal l") (simp_all del: dropWhile_eq_Nil_conv)

lemma spec_strip_glyph_eq: "spec_strip_glyph l = strip_glyph l"
  by (cases l) (auto simp: spec_strip_glyph_def is_glyph_def)

lemma bullet_loop_eq:
  "bullet_loop ls acc =
     acc @ filter (\<lambda>l. l \<noteq> []) (map clean_bullet (filter (\<lambda>l. l \<noteq> []) (map strip ls)))"
  by (induction ls arbitrary: acc) (simp_all add: Let_def)

section \<open>Document classifier: first page\<close>

lemma strip_empty_iff: "strip s = [] \<longleftrightarrow> (\<forall>c\<in>set s. isspace c)"
proof
  assume "strip s = []"
  then have all: "\<forall>x\<in>set (dropWhile isspace s). isspace x"
    by (simp add: strip_def)
  have "dropWhile isspace s = []"
  proof (rule ccontr)
    assume ne: "dropWhile isspace s \<noteq> []"
    then have "\<not> isspace (hd (dropWhile isspace s))" by (rule hd_dropWhile)
    with ne all show False by (meson hd_in_set)
  qed
  then show "\<forall>c\<in>set s. isspace c" by simp
next
  assume "\<forall>c\<in>set s. isspace c"
  then have "dropWhile isspace s = []" by simp
  then show "strip s = []" unfolding strip_def by (simp del: dropWhile_eq_Nil_conv)
qed

text \<open>
  C3.  When the document opens and has a first page, \<open>is_scanned_pdf\<close> answers
  scan-based exactly when every character of the first page's text is whitespace,
  whatever the later pages hold.
\<close>

theorem is_scanned_pdf_first_page:
  "fitz_open w path = Inr (first_page # later_pages) \<Longrightarrow>
   fst (is_scanned_pdf w path log) = Inr (\<forall>c\<in>set first_page. isspace c)"
  by (simp add: is_scanned_pdf_def strip_empty_iff)

theorem is_scanned_pdf_first_page_witness:
  "fst (is_scanned_pdf demo_pdf_world (u ''scan.pdf'') []) = Inr True \<and>
   fst (is_scanned_pdf demo_pdf_world (u ''report.pdf'') []) = Inr False"
proof
  have h: "fitz_open demo_pdf_world (u ''scan.pdf'') = Inr (u '' \<newline>'' # [u ''hidden text layer''])"
    by (simp add: demo_pdf_world_def)
  show "fst (is_scanned_pdf demo_pdf_world (u ''scan.pdf'') []) = Inr True"
    using is_scanned_pdf_first_page [OF h, of "[]"] by (simp add: string_defs)
  have h': "fitz_open demo_pdf_world (u ''report.pdf'') = Inr (u ''Title'' # [[]])"
    by (simp add: demo_pdf_world_def u_def)
  show "fst (is_scanned_pdf demo_pdf_world (u ''report.pdf'') []) = Inr False"
    using is_scanned_pdf_first_page [OF h', of "[]"] by (simp add: string_defs)
qed

section \<open>Content requester: properties\<close>












section \<open>Document classifier: opens\<close>

lemma is_scanned_pdf_log: "snd (is_scanned_pdf w path log) = log @ [ClassifierOpen path]"
  by (simp add: is_scanned_pdf_def Let_def split: sum.splits list.splits)

lemma classifier_opens_append:
  "classifier_opens (xs @ ys) = classifier_opens xs + classifier_opens ys"
  by (simp add: classifier_opens_def)

lemma classifier_opens_snoc:
  "classifier_opens (log @ [ClassifierOpen p]) = classifier_opens log + 1"
  "classifier_opens (log @ [ExtractorOpen p]) = classifier_opens log"
  "classifier_opens (log @ [Render p]) = classifier_opens log"
  "classifier_opens (log @ [Recognise i]) = classifier_opens log"
  by (simp_all add: classifier_opens_def)

lemma recognise_all_opens:
  "classifier_opens (snd (recognise_all w imgs acc log)) = classifier_opens log"
  by (induction imgs arbitrary: acc log)
     (simp_all add: classifier_opens_snoc split: sum.splits)

lemma scanned_opens:
  "classifier_opens (snd (extract_text_from_scanned_pdf w path log)) = classifier_opens log"
proof (cases "convert_from_path w path")
  case (Inl e)
  then show ?thesis
    by (simp add: extract_text_from_scanned_pdf_def classifier_opens_snoc)
next
  case (Inr images)
  have "classifier_opens (snd (recognise_all w images [] (log @ [Render path]))) = classifier_opens log"
    by (simp add: recognise_all_opens classifier_opens_snoc)
  then show ?thesis using Inr
    by (auto simp: extract_text_from_scanned_pdf_def split: prod.splits sum.splits)
qed

lemma normal_opens:
  "classifier_opens (snd (extract_text_from_normal_pdf w path log)) = classifier_opens log"
  by (simp add: extract_text_from_normal_pdf_def classifier_opens_snoc Let_def split: sum.splits)

lemma is_scanned_pdf_result:
  "fitz_open w path = Inr (first_page # later_pages) \<Longrightarrow>
   is_scanned_pdf w path log = (Inr (strip first_page = []), log @ [ClassifierOpen path])"
  by (simp add: is_scanned_pdf_def)

text \<open>
  C9, as the code has it.  Each call of \<open>is_scanned_pdf\<close> opens the document exactly
  once.  Constructing a \<open>PDFExtractor\<close> for a document that opens and has a first page
  classifies it twice, once for the field \<open>is_scanned\<close> and once more inside
  \<open>extract_text\<close>, so the classifier opens the document twice; the field holds the
  classification of the first page.  No other method assigns a field.
\<close>

theorem classification_opens:
  "snd (is_scanned_pdf w path log) = log @ [ClassifierOpen path] \<and>
   (fitz_open w path = Inr (first_page # later_pages) \<longrightarrow>
      classifier_opens (snd (pdf_extractor_init w path log)) = classifier_opens log + 2 \<and>
      (\<forall>self. fst (pdf_extractor_init w path log) = Inr self \<longrightarrow>
         is_scanned self = (\<forall>c\<in>set first_page. isspace c) \<and> pdf_path self = path))"
proof (intro conjI impI allI)
  show "snd (is_scanned_pdf w path log) = log @ [ClassifierOpen path]"
    by (rule is_scanned_pdf_log)
next
  assume f: "fitz_open w path = Inr (first_page # later_pages)"
  note c = is_scanned_pdf_result [OF f]
  have e: "classifier_opens (snd (extract_text w path l)) = classifier_opens l + 1" for l
    by (simp add: extract_text_def c scanned_opens normal_opens classifier_opens_snoc)
  have "classifier_opens (snd (pdf_extractor_init w path log))
          = classifier_opens (snd (extract_text w path (log @ [ClassifierOpen path])))"
    by (simp add: pdf_extractor_init_def c split: prod.splits sum.splits)
  also have "\<dots> = classifier_opens log + 2"
    by (simp add: e classifier_opens_snoc)
  finally show "classifier_opens (snd (pdf_extractor_init w path log)) = classifier_opens log + 2" .
  fix self assume "fst (pdf_extractor_init w path log) = Inr self"
  then have "is_scanned self = (strip first_page = []) \<and> pdf_path self = path"
    by (auto simp: pdf_extractor_init_def c split: prod.splits sum.splits)
  then show "is_scanned self = (\<forall>c\<in>set first_page. isspace c)" and "pdf_path self = path"
    by (simp_all add: strip_empty_iff)
qed

text \<open>
  Constructing the extractor for the scanned document: the classifier opens it twice
  before the pages are rendered.
\<close>

theorem two_classifier_opens_counterexample:
  "snd (pdf_extractor_init demo_pdf_world (u ''scan.pdf'') []) =
     [ClassifierOpen (u ''scan.pdf''), ClassifierOpen (u ''scan.pdf''), Render (u ''scan.pdf''),
      Recognise 0, Recognise 1] \<and>
   classifier_opens (snd (pdf_extractor_init demo_pdf_world (u ''scan.pdf'') [])) \<noteq> 1"
  by (simp add: pdf_defs classifier_opens_def string_defs)

theorem classification_opens_witness:
  "classifier_opens (snd (pdf_extractor_init demo_pdf_world (u ''report.pdf'') [])) = 2 \<and>
   fst (pdf_extractor_init demo_pdf_world (u ''report.pdf'') []) =
     Inr \<lparr>pdf_path = u ''report.pdf'', extracted_text = Some (u ''Title\<newline>''), is_scanned = False\<rparr>"
proof -
  have f: "fitz_open demo_pdf_world (u ''report.pdf'') = Inr (u ''Title'' # [[]])"
    by (simp add: demo_pdf_world_def u_def)
  have r: "fst (pdf_extractor_init demo_pdf_world (u ''report.pdf'') []) =
     Inr \<lparr>pdf_path = u ''report.pdf'', extracted_text = Some (u ''Title\<newline>''), is_scanned = False\<rparr>"
    by (simp add: pdf_defs string_defs)
  from classification_opens [of demo_pdf_world "u ''report.pdf''" "[]" "u ''Title''" "[[]]"] f r
  show ?thesis
    by (simp add: classifier_opens_def)
qed

section \<open>Preview slide: properties\<close>








lemma generate_response_slides:
  "slides (snd (generate_response w g p)) = slides g"
  by (simp add: generate_response_def Let_def split: option.splits sum.splits)
















section \<open>Bullet extractor: simple lists\<close>

lemma glyph_not_space: "is_glyph c \<Longrightarrow> \<not> isspace c"
  by (auto simp: is_glyph_def isspace_def char_defs)

lemma decimal_not_space: "isdecimal c \<Longrightarrow> \<not> isspace c"
  by (auto simp: isdecimal_def decimal_zeros_def isspace_def)

lemma decimal_not_NL: "isdecimal c \<Longrightarrow> c \<noteq> NL"
  using decimal_not_space [of c] by (auto simp: isspace_def NL_def)

lemma DOT_not_decimal: "\<not> isdecimal DOT"
  by (simp add: isdecimal_def decimal_zeros_def DOT_def)

lemma DOT_not_space: "\<not> isspace DOT"
  by (simp add: isspace_def DOT_def)

lemma NL_space: "isspace NL"
  by (simp add: isspace_def NL_def)

lemma glyph_not_decimal: "is_glyph c \<Longrightarrow> \<not> isdecimal c"
  by (auto simp: is_glyph_def isdecimal_def decimal_zeros_def char_defs)


lemma strip_bold_no_star: "STAR \<notin> set s \<Longrightarrow> strip_bold s = s"
  by (induction s rule: strip_bold.induct) auto

lemma strip_italic_no_star: "STAR \<notin> set s \<Longrightarrow> strip_italic s = s"
  by (induction s rule: strip_italic.induct) auto

lemma strip_id: "s \<noteq> [] \<Longrightarrow> \<not> isspace (hd s) \<Longrightarrow> \<not> isspace (last s) \<Longrightarrow> strip s = s"
proof -
  assume s: "s \<noteq> []" and h: "\<not> isspace (hd s)" and l: "\<not> isspace (last s)"
  from s h have 1: "dropWhile isspace s = s" by (cases s) simp_all
  from s l have 2: "dropWhile isspace (rev s) = rev s" by (cases "rev s") (simp_all add: last_rev [symmetric] hd_rev)
  show ?thesis by (simp add: strip_def 1 2)
qed

lemma dropWhile_all_append: "\<forall>x\<in>set ws. P x \<Longrightarrow> dropWhile P (ws @ r) = dropWhile P r"
  by (induction ws) simp_all

lemma takeWhile_all_append: "\<forall>x\<in>set ws. P x \<Longrightarrow> takeWhile P (ws @ r) = ws @ takeWhile P r"
  by (induction ws) simp_all

lemma dropWhile_hd: "r \<noteq> [] \<Longrightarrow> \<not> P (hd r) \<Longrightarrow> dropWhile P r = r"
  by (cases r) simp_all

lemma takeWhile_hd: "r \<noteq> [] \<Longrightarrow> \<not> P (hd r) \<Longrightarrow> takeWhile P r = []"
  by (cases r) simp_all

lemma blank_space: "blank ws \<Longrightarrow> \<forall>x\<in>set ws. isspace x"
  by (simp add: blank_def list_all_iff)

lemma strip_number_plain: "plain b \<Longrightarrow> strip_number b = b"
  by (cases b) (simp_all add: plain_def strip_number_def)

lemma strip_number_marker:
  assumes "number_marker m" and "plain b"
  shows "strip_number (m @ b) = b"
proof -
  from assms(1) obtain ws where
    d: "dropWhile isdecimal m = DOT # ws" and t: "takeWhile isdecimal m \<noteq> []" and w: "blank ws"
    by (auto simp: number_marker_def split: list.splits)
  have m: "m = takeWhile isdecimal m @ DOT # ws"
    using takeWhile_dropWhile_id [of isdecimal m] d by simp
  have all: "\<forall>x\<in>set (takeWhile isdecimal m). isdecimal x"
    by (auto dest: set_takeWhileD)
  have dr: "dropWhile isdecimal (m @ b) = DOT # ws @ b"
    by (subst m) (simp add: dropWhile_all_append [OF all] DOT_not_decimal)
  have tk: "takeWhile isdecimal (m @ b) \<noteq> []"
    using t by (cases m) (auto split: if_splits)
  from assms(2) have b: "b \<noteq> []" "\<not> isspace (hd b)" by (simp_all add: plain_def)
  have "dropWhile isspace (ws @ b) = b"
    by (simp add: dropWhile_all_append [OF blank_space [OF w]] dropWhile_hd b)
  then show ?thesis
    by (simp add: strip_number_def dr tk del: takeWhile_eq_Nil_iff)
qed

lemma number_marker_hd: "number_marker m \<Longrightarrow> m \<noteq> [] \<and> isdecimal (hd m)"
  by (cases m) (auto simp: number_marker_def split: if_splits)

lemma number_marker_no_NL: "number_marker m \<Longrightarrow> NL \<notin> set m"
proof -
  assume nm: "number_marker m"
  then obtain ws where
    d: "dropWhile isdecimal m = DOT # ws" and w: "blank ws"
    by (auto simp: number_marker_def split: list.splits)
  have m: "m = takeWhile isdecimal m @ DOT # ws"
    using takeWhile_dropWhile_id [of isdecimal m] d by simp
  have "NL \<notin> set (takeWhile isdecimal m)"
    using decimal_not_NL by (auto dest: set_takeWhileD)
  moreover have "NL \<notin> set ws" using w by (auto simp: blank_def list_all_iff)
  moreover have "NL \<noteq> DOT" by (simp add: char_defs)
  ultimately show ?thesis by (subst m) auto
qed

lemma clean_bullet_item:
  assumes "item_marker m" and "plain b"
  shows "clean_bullet (m @ b) = b"
proof -
  from assms(2) have b: "b \<noteq> []" "\<not> isspace (hd b)" "\<not> is_glyph (hd b)"
    by (cases b; simp add: plain_def)+
  from assms(2) have star: "STAR \<notin> set b"
    by (auto simp: plain_def list_all_iff is_glyph_def)
  have "strip_number (strip_glyph (m @ b)) = b"
  proof (cases m)
    case Nil
    then show ?thesis using b assms(2) by (cases b) (simp_all add: strip_number_plain)
  next
    case (Cons c cs)
    show ?thesis
    proof (cases "is_glyph c")
      case True
      with assms(1) Cons have bl: "blank (takeWhile isspace cs)"
        and r: "dropWhile isspace cs = [] \<or> number_marker (dropWhile isspace cs)"
        by simp_all
      have cs: "cs = takeWhile isspace cs @ dropWhile isspace cs" by simp
      have sg: "strip_glyph (m @ b) = dropWhile isspace cs @ b"
      proof -
        have "dropWhile isspace (cs @ b) = dropWhile isspace (dropWhile isspace cs @ b)"
          by (subst cs) (simp only: append_assoc dropWhile_all_append [OF blank_space [OF bl]])
        also have "\<dots> = dropWhile isspace cs @ b"
        proof (cases "dropWhile isspace cs")
          case Nil
          show ?thesis unfolding Nil using b by (simp add: dropWhile_hd)
        next
          case (Cons d ds)
          then have "\<not> isspace d" using hd_dropWhile [of isspace cs] by simp
          then show ?thesis using Cons by simp
        qed
        finally show ?thesis using True Cons by simp
      qed
      from r show ?thesis
      proof
        assume e: "dropWhile isspace cs = []"
        have "strip_glyph (m @ b) = b" unfolding sg e by simp
        then show ?thesis using assms(2) by (simp add: strip_number_plain)
      next
        assume "number_marker (dropWhile isspace cs)"
        then show ?thesis using sg assms(2) by (simp add: strip_number_marker)
      qed
    next
      case False
      with assms(1) Cons have nm: "number_marker m" by simp
      from False Cons have "strip_glyph (m @ b) = m @ b" by simp
      then show ?thesis using nm assms(2) by (simp add: strip_number_marker)
    qed
  qed
  then show ?thesis
    by (simp add: clean_bullet_def strip_bold_no_star strip_italic_no_star star)
qed

lemma item_marker_no_NL: "item_marker m \<Longrightarrow> NL \<notin> set m"
proof (cases m)
  case Nil
  then show ?thesis by simp
next
  case (Cons c cs)
  assume im: "item_marker m"
  show ?thesis
  proof (cases "is_glyph c")
    case True
    with im Cons have bl: "blank (takeWhile isspace cs)"
      and r: "dropWhile isspace cs = [] \<or> number_marker (dropWhile isspace cs)"
      by simp_all
    have "NL \<notin> set (takeWhile isspace cs)" using bl by (auto simp: blank_def list_all_iff)
    moreover have "NL \<notin> set (dropWhile isspace cs)"
    proof (cases "dropWhile isspace cs")
      case Nil
      show ?thesis unfolding Nil by simp
    next
      case (Cons d ds)
      with r have "number_marker (dropWhile isspace cs)" by (simp del: dropWhile_eq_Nil_conv)
      then show ?thesis by (rule number_marker_no_NL)
    qed
    ultimately have "NL \<notin> set cs"
      by (metis takeWhile_dropWhile_id set_append Un_iff)
    moreover have "c \<noteq> NL" using True glyph_not_space NL_space by auto
    ultimately show ?thesis using Cons by simp
  next
    case False
    with im Cons have "number_marker m" by simp
    then show ?thesis by (rule number_marker_no_NL)
  qed
qed

lemma item_line_strip:
  assumes "item_marker m" and "plain b"
  shows "strip (m @ b) = m @ b"
proof (rule strip_id)
  from assms(2) have b: "b \<noteq> []" "\<not> isspace (hd b)" "\<not> isspace (last b)"
    by (simp_all add: plain_def)
  show "m @ b \<noteq> []" using b by simp
  show "\<not> isspace (last (m @ b))" using b by simp
  show "\<not> isspace (hd (m @ b))"
  proof (cases m)
    case Nil
    then show ?thesis using b by simp
  next
    case (Cons c cs)
    then show ?thesis using assms(1) glyph_not_space [of c] decimal_not_space [of c]
        number_marker_hd [of "c # cs"]
      by (cases "is_glyph c") auto
  qed
qed


lemma split_nl_line: "NL \<notin> set l \<Longrightarrow> split_nl l = [l]"
  by (induction l) auto

lemma split_nl_append: "NL \<notin> set l \<Longrightarrow> split_nl (l @ NL # r) = l # split_nl r"
  by (induction l) auto

lemma split_nl_join_nl:
  "ls \<noteq> [] \<Longrightarrow> \<forall>l\<in>set ls. NL \<notin> set l \<Longrightarrow> split_nl (join_nl ls) = ls"
  by (induction ls rule: join_nl.induct) (simp_all add: split_nl_line split_nl_append)

lemma plain_bullet_free: "plain b \<Longrightarrow> bullet_free b"
  by (cases b) (auto simp: plain_def bullet_free_def has_number_prefix_def list_all_iff)

lemma plain_no_NL: "plain b \<Longrightarrow> NL \<notin> set b"
  by (auto simp: plain_def list_all_iff)

lemma item_lines_cleaned:
  "list_all (\<lambda>(m, b). item_marker m \<and> plain b) items \<Longrightarrow>
   filter (\<lambda>l. l \<noteq> []) (map clean_bullet (filter (\<lambda>l. l \<noteq> [])
     (map strip (map (\<lambda>(m, b). m @ b) items)))) = map snd items"
proof (induction items)
  case Nil
  show ?case by simp
next
  case (Cons item items)
  obtain m b where item: "item = (m, b)" by (cases item)
  from Cons.prems item have mb: "item_marker m" "plain b" by simp_all
  from mb(2) have "b \<noteq> []" by (simp add: plain_def)
  then show ?case
    using Cons item by (simp add: item_line_strip [OF mb] clean_bullet_item [OF mb])
qed

text \<open>
  C5, as the code has it.  For every text whose lines are each a marker followed by a
  plain body, the result of \<open>_extract_bullet_points\<close> is the list of the bodies, in
  order, and so holds no bullet glyph and no numbering prefix.
\<close>

theorem extract_bullet_points_items:
  assumes "list_all (\<lambda>(m, b). item_marker m \<and> plain b) items"
  shows "extract_bullet_points (join_nl (map (\<lambda>(m, b). m @ b) items)) = map snd items \<and>
         list_all bullet_free (extract_bullet_points (join_nl (map (\<lambda>(m, b). m @ b) items)))"
proof -
  let ?lines = "map (\<lambda>(m, b). m @ b) items"
  have e: "extract_bullet_points (join_nl ?lines) = map snd items"
  proof (cases items)
    case Nil
    then show ?thesis by (simp add: extract_bullet_points_def strip_def)
  next
    case (Cons item rest)
    have "\<forall>l\<in>set ?lines. NL \<notin> set l"
      using assms by (auto simp: list_all_iff dest: item_marker_no_NL plain_no_NL)
    moreover have "?lines \<noteq> []" using Cons by simp
    ultimately have sj: "split_nl (join_nl ?lines) = ?lines" by (simp add: split_nl_join_nl)
    show ?thesis
      unfolding extract_bullet_points_def bullet_loop_eq sj append_Nil
      by (rule item_lines_cleaned [OF assms])
  qed
  have "list_all bullet_free (map snd items)"
    using assms by (induction items) (auto dest: plain_bullet_free)
  with e show ?thesis by simp
qed

theorem extract_bullet_points_items_witness:
  "extract_bullet_points (BULLET # u '' A\<newline>- B\<newline>1. C\<newline>* 2.  D\<newline>E'') =
     [u ''A'', u ''B'', u ''C'', u ''D'', u ''E''] \<and>
   list_all bullet_free (extract_bullet_points (BULLET # u '' A\<newline>- B\<newline>1. C\<newline>* 2.  D\<newline>E''))"
proof -
  let ?items = "[(BULLET # u '' '', u ''A''), (u ''- '', u ''B''), (u ''1. '', u ''C''),
                 (u ''* 2.  '', u ''D''), ([], u ''E'')]"
  have h: "list_all (\<lambda>(m, b). item_marker m \<and> plain b) ?items"
    by (simp add: plain_def blank_def number_marker_def string_defs)
  have t: "join_nl (map (\<lambda>(m, b). m @ b) ?items) = BULLET # u '' A\<newline>- B\<newline>1. C\<newline>* 2.  D\<newline>E''"
    by (simp add: u_def NL_def)
  note r = extract_bullet_points_items [OF h, unfolded t]
  from r have a: "extract_bullet_points (BULLET # u '' A\<newline>- B\<newline>1. C\<newline>* 2.  D\<newline>E'') =
     [u ''A'', u ''B'', u ''C'', u ''D'', u ''E'']"
    by simp
  from r have b: "list_all bullet_free (extract_bullet_points (BULLET # u '' A\<newline>- B\<newline>1. C\<newline>* 2.  D\<newline>E''))"
    by (rule conjunct2)
  from a b show ?thesis by (rule conjI)
qed

text \<open>
  A bullet glyph behind a numbering prefix and a second numbering prefix both stay.
\<close>

theorem glyphs_survive_counterexample:
  "extract_bullet_points (u ''1. - A\<newline>1. 2. B'') = [u ''- A'', u ''2. B''] \<and>
   \<not> list_all bullet_free (extract_bullet_points (u ''1. - A\<newline>1. 2. B''))"
  by (simp add: sanitizer_defs bullet_free_def has_number_prefix_def)

section \<open>Response sanitizer: properties\<close>

subsection \<open>Lines\<close>

lemma split_nl_not_Nil: "split_nl t \<noteq> []"
  by (induction t) (auto split: list.splits)

lemma join_nl_Cons_Cons: "join_nl ((c # l) # ls) = c # join_nl (l # ls)"
  by (cases ls) simp_all

lemma join_nl_split_nl: "join_nl (split_nl t) = t"
proof (induction t)
  case Nil
  show ?case by simp
next
  case (Cons c cs)
  obtain l ls where s: "split_nl cs = l # ls"
    using split_nl_not_Nil [of cs] by (cases "split_nl cs") auto
  show ?case using Cons by (simp add: s join_nl_Cons_Cons)
qed

lemma split_nl_hd_prefix: "split_nl t = l # ls \<Longrightarrow> prefix l t"
  by (induction t arbitrary: l ls) (auto split: if_splits list.splits)

lemma line_sublist: "l \<in> set (split_nl t) \<Longrightarrow> sublist l t"
proof (induction t arbitrary: l)
  case Nil
  then show ?case by simp
next
  case (Cons c cs)
  obtain l0 ls where s: "split_nl cs = l0 # ls"
    using split_nl_not_Nil [of cs] by (cases "split_nl cs") auto
  show ?case
  proof (cases "c = NL")
    case True
    with Cons.prems have "l = [] \<or> l \<in> set (split_nl cs)" by simp
    then show ?thesis using Cons.IH by (auto simp: sublist_Cons_right)
  next
    case False
    with Cons.prems s have "l = c # l0 \<or> l \<in> set (split_nl cs)" by auto
    then show ?thesis
    proof
      assume "l = c # l0"
      moreover have "prefix l0 cs" using s by (rule split_nl_hd_prefix)
      ultimately show ?thesis by (simp add: sublist_Cons_right)
    next
      assume "l \<in> set (split_nl cs)"
      then show ?thesis using Cons.IH by (simp add: sublist_Cons_right)
    qed
  qed
qed

lemma line_no_NL: "l \<in> set (split_nl t) \<Longrightarrow> NL \<notin> set l"
  by (induction t arbitrary: l) (auto split: if_splits list.splits)

lemma strip_sublist: "sublist (strip l) l"
proof -
  have "sublist (dropWhile isspace (rev (dropWhile isspace l))) (rev (dropWhile isspace l))"
    by (rule sublist_dropWhile)
  then have "sublist (strip l) (dropWhile isspace l)"
    by (simp add: strip_def sublist_rev_left)
  moreover have "sublist (dropWhile isspace l) l" by (rule sublist_dropWhile)
  ultimately show ?thesis by (rule sublist_order.order.trans)
qed

lemma successively_sublist: "successively R t \<Longrightarrow> sublist l t \<Longrightarrow> successively R l"
  by (auto simp: sublist_def successively_append_iff)

lemma last_dropWhile: "dropWhile P xs \<noteq> [] \<Longrightarrow> last (dropWhile P xs) = last xs"
  by (induction xs) (auto split: if_splits)

lemma strip_ends:
  assumes "strip l \<noteq> []"
  shows "\<not> isspace (hd (strip l))" and "\<not> isspace (last (strip l))"
proof -
  let ?a = "dropWhile isspace l"
  let ?b = "dropWhile isspace (rev ?a)"
  from assms have b: "?b \<noteq> []" by (simp add: strip_def)
  have a: "?a \<noteq> []"
  proof
    assume e: "?a = []"
    show False using b unfolding e by simp
  qed
  have "last (strip l) = hd ?b" using b by (simp add: strip_def last_rev)
  then show "\<not> isspace (last (strip l))" using hd_dropWhile [OF b] by simp
  have "hd (strip l) = last ?b" using b by (simp add: strip_def hd_rev)
  also have "\<dots> = last (rev ?a)" using b by (rule last_dropWhile)
  also have "\<dots> = hd ?a" using a by (simp add: last_rev)
  finally show "\<not> isspace (hd (strip l))" using hd_dropWhile [OF a] by simp
qed

subsection \<open>Whitespace runs and escaped line breaks\<close>

lemma collapse_ws_Nil [simp]: "collapse_ws s = [] \<longleftrightarrow> s = []"
  by (cases s rule: collapse_ws.cases) auto

lemma collapse_ws_hd: "s \<noteq> [] \<Longrightarrow> \<not> isspace (hd s) \<Longrightarrow> hd (collapse_ws s) = hd s"
  by (cases s rule: collapse_ws.cases) auto

lemma collapse_ws_hd_cases: "s \<noteq> [] \<Longrightarrow> hd (collapse_ws s) = hd s \<or> hd (collapse_ws s) = SPACE"
  by (cases s rule: collapse_ws.cases) auto

lemma SPACE_facts: "isspace SPACE" "SPACE \<noteq> BACKSLASH" "SPACE \<noteq> LETTER_n" "NL \<noteq> BACKSLASH"
  "NL \<noteq> LETTER_n" "isspace NL"
  by (simp_all add: isspace_def char_defs)

lemma collapse_ws_no_double_space: "successively no_double_space (collapse_ws s)"
proof (induction s rule: collapse_ws.induct)
  case 1
  show ?case by simp
next
  case (2 c)
  show ?case by simp
next
  case (3 c d cs)
  show ?case
  proof (cases "isspace c \<and> isspace d")
    case True
    let ?r = "dropWhile isspace cs"
    have "?r = [] \<or> no_double_space SPACE (hd (collapse_ws ?r))"
    proof (cases "?r = []")
      case True
      then show ?thesis by simp
    next
      case False
      then have "\<not> isspace (hd ?r)" by (rule hd_dropWhile)
      with False show ?thesis by (simp add: collapse_ws_hd no_double_space_def)
    qed
    then show ?thesis using True 3(1)
      by (auto simp: successively_Cons simp del: dropWhile_eq_Nil_conv)
  next
    case False
    have "no_double_space c (hd (collapse_ws (d # cs)))"
    proof (cases "isspace c")
      case True
      with False have "\<not> isspace d" by simp
      then show ?thesis using collapse_ws_hd [of "d # cs"] by (simp add: no_double_space_def)
    next
      case False
      then show ?thesis by (simp add: no_double_space_def)
    qed
    then show ?thesis using False 3(2) by (auto simp: successively_Cons)
  qed
qed

lemma collapse_ws_no_escape:
  "successively no_escape s \<Longrightarrow> successively no_escape (collapse_ws s)"
proof (induction s rule: collapse_ws.induct)
  case 1
  show ?case by simp
next
  case (2 c)
  show ?case by simp
next
  case (3 c d cs)
  show ?case
  proof (cases "isspace c \<and> isspace d")
    case True
    have "successively no_escape (dropWhile isspace cs)"
      using "3.prems" by (rule successively_sublist) (auto intro: sublist_order.order.trans [OF sublist_dropWhile] simp: sublist_Cons_right)
    then have "successively no_escape (collapse_ws (dropWhile isspace cs))"
      using True "3.IH"(1) by simp
    then show ?thesis using True
      by (simp add: successively_Cons no_escape_def SPACE_facts)
  next
    case False
    from "3.prems" have nd: "no_escape c d" and tl: "successively no_escape (d # cs)"
      by simp_all
    have "successively no_escape (collapse_ws (d # cs))"
      using False "3.IH"(2) tl by simp
    moreover have "no_escape c (hd (collapse_ws (d # cs)))"
      using collapse_ws_hd_cases [of "d # cs"] nd by (auto simp: no_escape_def SPACE_facts)
    ultimately show ?thesis using False by (auto simp: successively_Cons)
  qed
qed

lemma replace_escaped_nl_hd:
  "replace_escaped_nl (d # cs) \<noteq> [] \<and>
   (hd (replace_escaped_nl (d # cs)) = d \<or> hd (replace_escaped_nl (d # cs)) = NL)"
  by (cases cs) auto

lemma replace_escaped_nl_no_escape: "successively no_escape (replace_escaped_nl s)"
proof (induction s rule: replace_escaped_nl.induct)
  case 1
  show ?case by simp
next
  case (2 c)
  show ?case by simp
next
  case (3 c d cs)
  show ?case
  proof (cases "c = BACKSLASH \<and> d = LETTER_n")
    case True
    then show ?thesis using 3(1)
      by (simp add: successively_Cons no_escape_def SPACE_facts)
  next
    case False
    have "no_escape c (hd (replace_escaped_nl (d # cs)))"
      using replace_escaped_nl_hd [of d cs] False by (auto simp: no_escape_def SPACE_facts)
    then show ?thesis using False 3(2) replace_escaped_nl_hd [of d cs]
      by (auto simp: successively_Cons)
  qed
qed

lemma collapse_ws_id: "successively no_double_space s \<Longrightarrow> collapse_ws s = s"
  by (induction s rule: collapse_ws.induct) (auto simp: no_double_space_def)

lemma replace_escaped_nl_id: "successively no_escape s \<Longrightarrow> replace_escaped_nl s = s"
  by (induction s rule: replace_escaped_nl.induct) (auto simp: no_escape_def)

subsection \<open>Emphasis and echo lines\<close>

lemma find_close_italic_star:
  "find_close_italic s = Some p \<Longrightarrow> STAR \<in> set (takeWhile (\<lambda>x. x \<noteq> NL) s)"
  by (induction s arbitrary: p) (auto split: if_splits simp: char_defs)

lemma strip_italic_id: "no_wrapper s \<Longrightarrow> strip_italic s = s"
proof (induction s rule: strip_italic.induct)
  case 1
  show ?case by simp
next
  case (2 c cs)
  show ?case
  proof (cases "c = STAR")
    case True
    with "2.prems" have "STAR \<notin> set (takeWhile (\<lambda>x. x \<noteq> NL) cs)" by simp
    then have "find_close_italic cs = None"
      using find_close_italic_star [of cs] by (cases "find_close_italic cs") auto
    then show ?thesis using True "2.IH" "2.prems" by simp
  next
    case False
    then show ?thesis using "2.IH" "2.prems" by simp
  qed
qed

lemma strip_bold_id: "no_wrapper s \<Longrightarrow> strip_bold s = s"
  by (induction s rule: strip_bold.induct) (auto simp: char_defs)

lemma remove_lines_id:
  "\<forall>l\<in>set (split_nl t). \<not> contains frag l \<Longrightarrow> remove_lines frag t = t"
proof -
  assume "\<forall>l\<in>set (split_nl t). \<not> contains frag l"
  then have "map (\<lambda>l. if contains frag l then [] else l) (split_nl t) = split_nl t"
    by (simp add: map_idI)
  then show ?thesis by (simp add: remove_lines_def join_nl_split_nl)
qed

subsection \<open>The sanitizer's output is a fixed point\<close>

lemma clean_lines_eq: "clean_lines ls acc = acc @ filter keeps_line (map strip ls)"
  by (induction ls arbitrary: acc) (simp_all add: Let_def)

lemma clean_response_form:
  "\<exists>t. clean_response x =
     join_nl (filter keeps_line (map strip (split_nl (collapse_ws (replace_escaped_nl t)))))"
  by (auto simp: clean_response_def Let_def clean_lines_eq)

lemma cleaned_lines_tidy:
  assumes "l \<in> set (filter keeps_line (map strip (split_nl (collapse_ws (replace_escaped_nl t)))))"
  shows "tidy_line l"
proof -
  let ?t = "collapse_ws (replace_escaped_nl t)"
  from assms obtain l' where l': "l' \<in> set (split_nl ?t)" and l: "l = strip l'" and k: "keeps_line l"
    by auto
  from k have ne: "l \<noteq> []" by (simp add: keeps_line_def)
  have sub: "sublist l ?t"
    unfolding l using strip_sublist line_sublist [OF l'] by (rule sublist_order.order.trans)
  have "NL \<notin> set l'" using l' by (rule line_no_NL)
  then have nl: "NL \<notin> set l"
    unfolding l using set_mono_sublist [OF strip_sublist [of l']] by auto
  have "successively no_double_space ?t" by (rule collapse_ws_no_double_space)
  then have ds: "successively no_double_space l" using sub by (rule successively_sublist)
  have "successively no_escape ?t"
    by (rule collapse_ws_no_escape) (rule replace_escaped_nl_no_escape)
  then have es: "successively no_escape l" using sub by (rule successively_sublist)
  from ne have "\<not> isspace (hd l)" "\<not> isspace (last l)"
    unfolding l by (rule strip_ends)+
  with ne nl k ds es show ?thesis by (simp add: tidy_line_def)
qed

lemma join_nl_successively:
  assumes "\<forall>l\<in>set ls. successively R l \<and> l \<noteq> [] \<and> R (last l) NL \<and> R NL (hd l)"
  shows "successively R (join_nl ls)"
  using assms
proof (induction ls rule: join_nl.induct)
  case 1
  show ?case by simp
next
  case (2 l)
  then show ?case by simp
next
  case (3 l m ls)
  then have rest: "successively R (join_nl (m # ls))" by simp
  have hd: "hd (join_nl (m # ls)) = hd m" using 3(2) by (cases ls) simp_all
  have ne: "join_nl (m # ls) \<noteq> []" using 3(2) by (cases ls) simp_all
  from 3(2) ne rest show ?case
    by (simp add: successively_append_iff successively_Cons hd)
qed

lemma tidy_lines_kept: "\<forall>l\<in>set ls. tidy_line l \<Longrightarrow> filter keeps_line (map strip ls) = ls"
  by (induction ls) (simp_all add: tidy_line_def strip_id)

lemma clean_response_fixed_point:
  assumes tidy: "\<forall>l\<in>set ls. tidy_line l"
      and nw: "no_wrapper (join_nl ls)" and ne: "no_echo (join_nl ls)"
  shows "clean_response (join_nl ls) = join_nl ls"
proof (cases "ls = []")
  case True
  then show ?thesis by (simp add: sanitizer_defs)
next
  case False
  let ?y = "join_nl ls"
  have 1: "strip_bold ?y = ?y" using nw by (rule strip_bold_id)
  have 2: "strip_italic ?y = ?y" using nw by (rule strip_italic_id)
  have 3: "remove_lines frag ?y = ?y" if "frag \<in> set echo_fragments" for frag
    using ne that by (intro remove_lines_id) (auto simp: no_echo_def list_all_iff)
  have 4: "replace_escaped_nl ?y = ?y"
    by (rule replace_escaped_nl_id, rule join_nl_successively)
       (use tidy in \<open>auto simp: tidy_line_def no_escape_def SPACE_facts\<close>)
  have 5: "collapse_ws ?y = ?y"
    by (rule collapse_ws_id, rule join_nl_successively)
       (use tidy in \<open>auto simp: tidy_line_def no_double_space_def\<close>)
  have 6: "split_nl ?y = ls"
    using False tidy by (intro split_nl_join_nl) (auto simp: tidy_line_def)
  show ?thesis
    by (simp add: clean_response_def 1 2 3 [unfolded echo_fragments_def] 4 5 6
        clean_lines_eq tidy_lines_kept [OF tidy])
qed

text \<open>
  C7.  When the output of one pass of \<open>_clean_response\<close> holds no emphasis wrapper
  and no echo line, a second pass returns it unchanged.
\<close>

theorem clean_response_idempotent:
  assumes "no_wrapper (clean_response x)" and "no_echo (clean_response x)"
  shows "clean_response (clean_response x) = clean_response x"
proof -
  obtain t where f: "clean_response x =
      join_nl (filter keeps_line (map strip (split_nl (collapse_ws (replace_escaped_nl t)))))"
    using clean_response_form by blast
  let ?ls = "filter keeps_line (map strip (split_nl (collapse_ws (replace_escaped_nl t))))"
  have "\<forall>l\<in>set ?ls. tidy_line l" by (blast intro: cleaned_lines_tidy)
  then have "clean_response (join_nl ?ls) = join_nl ?ls"
    using assms unfolding f by (rule clean_response_fixed_point)
  then show ?thesis unfolding f .
qed

theorem clean_response_idempotent_witness:
  "clean_response noisy_reply = u ''Intro to AI - first point'' \<and>
   clean_response (clean_response noisy_reply) = clean_response noisy_reply"
proof -
  have c: "clean_response noisy_reply = u ''Intro to AI - first point''"
    by (simp add: noisy_reply_def sanitizer_defs)
  have w: "no_wrapper (u ''Intro to AI - first point'')"
    by (simp add: u_def char_defs)
  have e: "no_echo (u ''Intro to AI - first point'')"
    by (simp add: no_echo_def echo_fragments_def u_def char_defs)
  show ?thesis
    using clean_response_idempotent [of noisy_reply] c w e by simp
qed

section \<open>Response sanitizer: echo lines\<close>

subsection \<open>Echo fragments do not survive\<close>

lemma contains_sublist: "contains f s \<longleftrightarrow> sublist f s"
  by (induction s) (simp_all add: sublist_Cons_right)

lemma sublist_join_nl:
  "sublist f (join_nl ls) \<Longrightarrow> f \<noteq> [] \<Longrightarrow> NL \<notin> set f \<Longrightarrow> \<exists>l\<in>set ls. sublist f l"
proof (induction ls rule: join_nl.induct)
  case 1
  then show ?case by simp
next
  case (2 l)
  then show ?case by simp
next
  case (3 l m ls)
  from "3.prems"(1) have "sublist f (l @ NL # join_nl (m # ls))" by simp
  then consider "sublist f l" | "sublist f (NL # join_nl (m # ls))"
    | f1 f2 where "f = f1 @ f2" "suffix f1 l" "prefix f2 (NL # join_nl (m # ls))"
    by (auto simp: sublist_append)
  then show ?case
  proof cases
    case 1
    then show ?thesis by simp
  next
    case 2
    then have "prefix f (NL # join_nl (m # ls)) \<or> sublist f (join_nl (m # ls))"
      by (simp add: sublist_Cons_right)
    moreover have "\<not> prefix f (NL # join_nl (m # ls))"
      using "3.prems"(2,3) by (cases f) auto
    ultimately have "sublist f (join_nl (m # ls))" by simp
    then show ?thesis using "3.IH" "3.prems"(2,3) by auto
  next
    case 3
    have "f2 = []"
      using 3(1,3) "3.prems"(3) by (cases f2) auto
    then have "sublist f l" using 3(1,2) by simp
    then show ?thesis by simp
  qed
qed

lemma prefix_collapse_ws:
  "prefix f (collapse_ws s) \<Longrightarrow> \<forall>c\<in>set f. \<not> isspace c \<Longrightarrow> prefix f s"
proof (induction s arbitrary: f rule: collapse_ws.induct)
  case 1
  then show ?case by simp
next
  case (2 c)
  then show ?case by simp
next
  case (3 c d cs)
  show ?case
  proof (cases f)
    case Nil
    then show ?thesis by simp
  next
    case (Cons a f')
    show ?thesis
    proof (cases "isspace c \<and> isspace d")
      case True
      with "3.prems" Cons show ?thesis by (auto simp: SPACE_facts)
    next
      case False
      with "3.prems" Cons have "a = c" and "prefix f' (collapse_ws (d # cs))" by auto
      moreover from "3.prems"(2) Cons have "\<forall>c\<in>set f'. \<not> isspace c" by simp
      ultimately show ?thesis using "3.IH"(2) [of f'] False Cons by auto
    qed
  qed
qed

lemma sublist_collapse_ws:
  "sublist f (collapse_ws s) \<Longrightarrow> \<forall>c\<in>set f. \<not> isspace c \<Longrightarrow> sublist f s"
proof (induction s rule: collapse_ws.induct)
  case 1
  then show ?case by simp
next
  case (2 c)
  then show ?case by simp
next
  case (3 c d cs)
  from "3.prems"(1) have
    "prefix f (collapse_ws (c # d # cs)) \<or> sublist f (tl (collapse_ws (c # d # cs)))"
    by (auto simp: sublist_Cons_right)
  then show ?case
  proof
    assume "prefix f (collapse_ws (c # d # cs))"
    then have "prefix f (c # d # cs)" using "3.prems"(2) by (rule prefix_collapse_ws)
    then show ?thesis by (rule prefix_imp_sublist)
  next
    assume t: "sublist f (tl (collapse_ws (c # d # cs)))"
    show ?thesis
    proof (cases "isspace c \<and> isspace d")
      case True
      with t have "sublist f (collapse_ws (dropWhile isspace cs))" by simp
      then have "sublist f (dropWhile isspace cs)" using True "3.IH"(1) "3.prems"(2) by simp
      then have "sublist f cs" using sublist_dropWhile by (rule sublist_order.order.trans)
      then show ?thesis by (simp add: sublist_Cons_right)
    next
      case False
      with t have "sublist f (collapse_ws (d # cs))" by auto
      then have "sublist f (d # cs)" using False "3.IH"(2) "3.prems"(2) by simp
      then show ?thesis by (simp add: sublist_Cons_right)
    qed
  qed
qed

lemma prefix_replace_escaped_nl:
  "prefix f (replace_escaped_nl s) \<Longrightarrow> NL \<notin> set f \<Longrightarrow> prefix f s"
proof (induction s arbitrary: f rule: replace_escaped_nl.induct)
  case 1
  then show ?case by simp
next
  case (2 c)
  then show ?case by simp
next
  case (3 c d cs)
  show ?case
  proof (cases f)
    case Nil
    then show ?thesis by simp
  next
    case (Cons a f')
    show ?thesis
    proof (cases "c = BACKSLASH \<and> d = LETTER_n")
      case True
      with "3.prems" Cons show ?thesis by auto
    next
      case False
      with "3.prems" Cons have "a = c" and "prefix f' (replace_escaped_nl (d # cs))" by auto
      moreover from "3.prems"(2) Cons have "NL \<notin> set f'" by simp
      ultimately show ?thesis using "3.IH"(2) [of f'] False Cons by auto
    qed
  qed
qed

lemma sublist_replace_escaped_nl:
  "sublist f (replace_escaped_nl s) \<Longrightarrow> NL \<notin> set f \<Longrightarrow> sublist f s"
proof (induction s rule: replace_escaped_nl.induct)
  case 1
  then show ?case by simp
next
  case (2 c)
  then show ?case by simp
next
  case (3 c d cs)
  from "3.prems"(1) have
    "prefix f (replace_escaped_nl (c # d # cs)) \<or> sublist f (tl (replace_escaped_nl (c # d # cs)))"
    by (auto simp: sublist_Cons_right)
  then show ?case
  proof
    assume "prefix f (replace_escaped_nl (c # d # cs))"
    then have "prefix f (c # d # cs)" using "3.prems"(2) by (rule prefix_replace_escaped_nl)
    then show ?thesis by (rule prefix_imp_sublist)
  next
    assume t: "sublist f (tl (replace_escaped_nl (c # d # cs)))"
    show ?thesis
    proof (cases "c = BACKSLASH \<and> d = LETTER_n")
      case True
      with t have "sublist f (replace_escaped_nl cs)" by simp
      then have "sublist f cs" using True "3.IH"(1) "3.prems"(2) by simp
      then show ?thesis by (simp add: sublist_Cons_right)
    next
      case False
      with t have "sublist f (replace_escaped_nl (d # cs))" by auto
      then have "sublist f (d # cs)" using False "3.IH"(2) "3.prems"(2) by simp
      then show ?thesis by (simp add: sublist_Cons_right)
    qed
  qed
qed

lemma sublist_remove_lines:
  assumes "sublist f (remove_lines g t)" and "f \<noteq> []" and "NL \<notin> set f"
  shows "sublist f t \<and> f \<noteq> g"
proof -
  from assms obtain l where
    l: "l \<in> set (map (\<lambda>l. if contains g l then [] else l) (split_nl t))" and s: "sublist f l"
    unfolding remove_lines_def using sublist_join_nl by blast
  from s assms(2) have "l \<noteq> []" by auto
  with l have lt: "l \<in> set (split_nl t)" and ng: "\<not> contains g l" by (auto split: if_splits)
  from s line_sublist [OF lt] have "sublist f t" by (rule sublist_order.order.trans)
  moreover from ng s have "f \<noteq> g" by (auto simp: contains_sublist)
  ultimately show ?thesis by simp
qed

lemma clean_response_steps:
  "clean_response x = after_model_lines (remove_lines (u ''model='') (strip_italic (strip_bold x)))"
  by (simp add: clean_response_def after_model_lines_def)

lemma fragment_facts:
  assumes "frag \<in> set echo_fragments"
  shows "frag \<noteq> []" and "NL \<notin> set frag" and "\<forall>c\<in>set frag. \<not> isspace c"
  using assms by (auto simp: echo_fragments_def u_def isspace_def NL_def)

lemma sublist_after_model_lines:
  assumes "sublist frag (after_model_lines t)" and "frag \<in> set echo_fragments"
  shows "sublist frag t"
proof -
  note ff = fragment_facts [OF assms(2)]
  define t4 where "t4 = remove_lines (u ''created_at='') t"
  define t5 where "t5 = remove_lines (u ''done='') t4"
  define t6 where "t6 = remove_lines (u ''message='') t5"
  define t8 where "t8 = collapse_ws (replace_escaped_nl t6)"
  have "after_model_lines t = join_nl (filter keeps_line (map strip (split_nl t8)))"
    by (simp add: after_model_lines_def clean_lines_eq t4_def t5_def t6_def t8_def)
  with assms(1) have "sublist frag (join_nl (filter keeps_line (map strip (split_nl t8))))"
    by simp
  then have "\<exists>l\<in>set (filter keeps_line (map strip (split_nl t8))). sublist frag l"
    using ff(1,2) by (rule sublist_join_nl)
  then obtain l l' where l: "sublist frag l" and l': "l' \<in> set (split_nl t8)" and "l = strip l'"
    by auto
  with l have "sublist frag l'"
    using strip_sublist [of l'] by (auto intro: sublist_order.order.trans)
  then have "sublist frag t8"
    using line_sublist [OF l'] by (rule sublist_order.order.trans)
  then have "sublist frag (replace_escaped_nl t6)"
    unfolding t8_def using ff(3) by (rule sublist_collapse_ws)
  then have "sublist frag t6" using ff(2) by (rule sublist_replace_escaped_nl)
  then have "sublist frag t5" unfolding t6_def using sublist_remove_lines ff(1,2) by blast
  then have "sublist frag t4" unfolding t5_def using sublist_remove_lines ff(1,2) by blast
  then show "sublist frag t" unfolding t4_def using sublist_remove_lines ff(1,2) by blast
qed

lemma clean_response_no_model:
  "\<not> sublist (u ''model='') (clean_response x)"
proof
  assume "sublist (u ''model='') (clean_response x)"
  moreover have m: "u ''model='' \<in> set echo_fragments" by (simp add: echo_fragments_def)
  ultimately have "sublist (u ''model='') (remove_lines (u ''model='') (strip_italic (strip_bold x)))"
    unfolding clean_response_steps by (rule sublist_after_model_lines)
  then show False
    using sublist_remove_lines fragment_facts [OF m] by blast
qed

subsection \<open>An echo line before or behind tidy lines\<close>

lemma after_model_lines_quiet:
  assumes "\<forall>l\<in>set (split_nl z). \<forall>frag\<in>set echo_fragments. \<not> contains frag l"
      and "successively no_escape z" and "successively no_double_space z"
  shows "after_model_lines z = join_nl (filter keeps_line (map strip (split_nl z)))"
proof -
  have 3: "remove_lines frag z = z" if "frag \<in> set echo_fragments" for frag
    using assms(1) that by (intro remove_lines_id) auto
  show ?thesis
    by (simp add: after_model_lines_def 3 [unfolded echo_fragments_def]
        replace_escaped_nl_id [OF assms(2)] collapse_ws_id [OF assms(3)] clean_lines_eq)
qed

lemma no_wrapper_append: "STAR \<notin> set e \<Longrightarrow> no_wrapper (e @ r) = no_wrapper r"
  by (induction e) simp_all

lemma takeWhile_line: "takeWhile (\<lambda>x. x \<noteq> NL) (cs @ NL # e) = takeWhile (\<lambda>x. x \<noteq> NL) cs"
  by (induction cs) simp_all

lemma no_wrapper_snoc: "no_wrapper y \<Longrightarrow> STAR \<notin> set e \<Longrightarrow> no_wrapper (y @ NL # e)"
proof (induction y)
  case Nil
  then show ?case using no_wrapper_append [of e "[]"] by (simp add: char_defs)
next
  case (Cons c cs)
  then show ?case by (simp add: takeWhile_line)
qed

lemma split_nl_join_append:
  "ls \<noteq> [] \<Longrightarrow> \<forall>l\<in>set ls. NL \<notin> set l \<Longrightarrow> split_nl (join_nl ls @ NL # r) = ls @ split_nl r"
  by (induction ls rule: join_nl.induct) (simp_all add: split_nl_append)

lemma join_nl_snoc: "ls \<noteq> [] \<Longrightarrow> join_nl (ls @ [l]) = join_nl ls @ NL # l"
  by (induction ls rule: join_nl.induct) simp_all

lemma hd_join_nl: "ls \<noteq> [] \<Longrightarrow> hd ls \<noteq> [] \<Longrightarrow> hd (join_nl ls) = hd (hd ls)"
  by (induction ls rule: join_nl.induct) simp_all

lemma join_nl_not_Nil: "ls \<noteq> [] \<Longrightarrow> last ls \<noteq> [] \<Longrightarrow> join_nl ls \<noteq> []"
  by (induction ls rule: join_nl.induct) simp_all

lemma last_join_nl: "ls \<noteq> [] \<Longrightarrow> last ls \<noteq> [] \<Longrightarrow> last (join_nl ls) = last (last ls)"
  by (induction ls rule: join_nl.induct) (simp_all add: join_nl_not_Nil)

lemma join_nl_Nil_iff: "\<forall>l\<in>set ls. l \<noteq> [] \<Longrightarrow> join_nl ls = [] \<longleftrightarrow> ls = []"
  by (induction ls rule: join_nl.induct) simp_all

lemma tidy_joined:
  assumes "ls \<noteq> []" and "\<forall>l\<in>set ls. tidy_line l"
  shows "successively no_escape (join_nl ls)" and "successively no_double_space (join_nl ls)"
    and "join_nl ls \<noteq> []" and "\<not> isspace (hd (join_nl ls))" and "\<not> isspace (last (join_nl ls))"
    and "split_nl (join_nl ls) = ls"
proof -
  show "successively no_escape (join_nl ls)"
    by (rule join_nl_successively)
       (use assms(2) in \<open>auto simp: tidy_line_def no_escape_def SPACE_facts\<close>)
  show "successively no_double_space (join_nl ls)"
    by (rule join_nl_successively)
       (use assms(2) in \<open>auto simp: tidy_line_def no_double_space_def\<close>)
  from assms have h: "hd ls \<noteq> []" "\<not> isspace (hd (hd ls))"
    by (cases ls; simp add: tidy_line_def)+
  from assms have l: "last ls \<noteq> []" "\<not> isspace (last (last ls))"
    using last_in_set [OF assms(1)] by (auto simp: tidy_line_def)
  show "join_nl ls \<noteq> []" using assms(1) l(1) by (rule join_nl_not_Nil)
  show "\<not> isspace (hd (join_nl ls))" using h by (simp add: hd_join_nl assms(1))
  show "\<not> isspace (last (join_nl ls))" using l by (simp add: last_join_nl assms(1))
  show "split_nl (join_nl ls) = ls"
    using assms by (intro split_nl_join_nl) (auto simp: tidy_line_def)
qed

lemma echo_line_framed:
  assumes ne: "ls \<noteq> []" and tidy: "\<forall>l\<in>set ls. tidy_line l"
      and nw: "no_wrapper (join_nl ls)" and echo: "no_echo (join_nl ls)"
      and e: "contains (u ''model='') e" "NL \<notin> set e" "STAR \<notin> set e"
  shows "clean_response (e @ NL # join_nl ls) = join_nl ls"
    and "clean_response (join_nl ls @ NL # e) = join_nl ls"
proof -
  let ?y = "join_nl ls"
  note y = tidy_joined [OF ne tidy]
  have quiet: "\<forall>l\<in>set ls. \<forall>frag\<in>set echo_fragments. \<not> contains frag l"
    using echo by (simp add: no_echo_def y(6) list_all_iff)
  have m: "u ''model='' \<in> set echo_fragments" by (simp add: echo_fragments_def)
  have keep: "map (\<lambda>l. if contains (u ''model='') l then [] else l) ls = ls"
    using quiet m by (intro map_idI) auto
  have empty: "\<forall>frag\<in>set echo_fragments. \<not> contains frag []"
    by (auto simp: echo_fragments_def u_def)
  have s0: "strip [] = []" by (simp add: strip_def)
  have k0: "\<not> keeps_line []" by (simp add: keeps_line_def)
  obtain l0 ls' where ls: "ls = l0 # ls'" using ne by (cases ls) auto

  have "no_wrapper (e @ NL # ?y)"
    using nw by (simp add: no_wrapper_append [OF e(3)] char_defs)
  then have 1: "strip_italic (strip_bold (e @ NL # ?y)) = e @ NL # ?y"
    by (simp add: strip_bold_id strip_italic_id)
  have "split_nl (e @ NL # ?y) = e # ls"
    by (simp add: split_nl_append [OF e(2)] y(6))
  then have 2: "remove_lines (u ''model='') (e @ NL # ?y) = NL # ?y"
    using e(1) by (simp add: remove_lines_def keep) (simp add: ls)
  have sp: "split_nl (NL # ?y) = [] # ls" by (simp add: y(6))
  have "after_model_lines (NL # ?y) = join_nl (filter keeps_line (map strip (split_nl (NL # ?y))))"
  proof (rule after_model_lines_quiet)
    show "\<forall>l\<in>set (split_nl (NL # ?y)). \<forall>frag\<in>set echo_fragments. \<not> contains frag l"
      unfolding sp using quiet empty by simp
    show "successively no_escape (NL # ?y)"
      using y(1) by (simp add: successively_Cons no_escape_def SPACE_facts)
    show "successively no_double_space (NL # ?y)"
      using y(2,4) by (simp add: successively_Cons no_double_space_def)
  qed
  then have 3: "after_model_lines (NL # ?y) = ?y"
    unfolding sp by (simp add: s0 k0 tidy_lines_kept [OF tidy])
  show "clean_response (e @ NL # ?y) = ?y"
    by (simp only: clean_response_steps 1 2 3)

  have "no_wrapper (?y @ NL # e)" using nw e(3) by (rule no_wrapper_snoc)
  then have 4: "strip_italic (strip_bold (?y @ NL # e)) = ?y @ NL # e"
    by (simp add: strip_bold_id strip_italic_id)
  have "\<forall>l\<in>set ls. NL \<notin> set l" using tidy by (simp add: tidy_line_def)
  then have spl: "split_nl (?y @ NL # r) = ls @ split_nl r" for r
    using ne by (simp add: split_nl_join_append)
  have "split_nl (?y @ NL # e) = ls @ [e]"
    by (simp add: spl split_nl_line [OF e(2)])
  then have 5: "remove_lines (u ''model='') (?y @ NL # e) = ?y @ [NL]"
    using e(1) by (simp add: remove_lines_def keep join_nl_snoc [OF ne])
  have sp': "split_nl (?y @ [NL]) = ls @ [[]]" by (simp add: spl)
  have "after_model_lines (?y @ [NL]) = join_nl (filter keeps_line (map strip (split_nl (?y @ [NL]))))"
  proof (rule after_model_lines_quiet)
    show "\<forall>l\<in>set (split_nl (?y @ [NL])). \<forall>frag\<in>set echo_fragments. \<not> contains frag l"
      unfolding sp' using quiet empty by simp
    show "successively no_escape (?y @ [NL])"
      using y(1) by (simp add: successively_append_iff no_escape_def SPACE_facts)
    show "successively no_double_space (?y @ [NL])"
      using y(2,5) by (simp add: successively_append_iff no_double_space_def)
  qed
  then have 6: "after_model_lines (?y @ [NL]) = ?y"
    unfolding sp' by (simp add: s0 k0 tidy_lines_kept [OF tidy])
  show "clean_response (?y @ NL # e) = ?y"
    by (simp only: clean_response_steps 4 5 6)
qed

text \<open>
  C2, as the code has it.  No line of the output of \<open>_clean_response\<close> holds
  \<open>model=\<close>, whatever the input.  When a line holding \<open>model=\<close> (and no asterisk)
  stands before or behind a text of tidy lines without emphasis wrapper and echo line,
  the output is exactly that text: its lines are kept, in order.
\<close>

theorem clean_response_removes_model_lines:
  "list_all (\<lambda>l. \<not> contains (u ''model='') l) (split_nl (clean_response x)) \<and>
   (ls \<noteq> [] \<and> list_all tidy_line ls \<and> no_wrapper (join_nl ls) \<and> no_echo (join_nl ls) \<and>
    contains (u ''model='') e \<and> NL \<notin> set e \<and> STAR \<notin> set e \<longrightarrow>
      clean_response (e @ NL # join_nl ls) = join_nl ls \<and>
      clean_response (join_nl ls @ NL # e) = join_nl ls)"
proof (intro conjI impI)
  show "list_all (\<lambda>l. \<not> contains (u ''model='') l) (split_nl (clean_response x))"
    unfolding list_all_iff contains_sublist
  proof
    fix l assume "l \<in> set (split_nl (clean_response x))"
    then have "sublist l (clean_response x)" by (rule line_sublist)
    then show "\<not> sublist (u ''model='') l"
      using clean_response_no_model [of x] by (auto dest: sublist_order.order.trans)
  qed
next
  assume h: "ls \<noteq> [] \<and> list_all tidy_line ls \<and> no_wrapper (join_nl ls) \<and> no_echo (join_nl ls) \<and>
    contains (u ''model='') e \<and> NL \<notin> set e \<and> STAR \<notin> set e"
  then have t: "\<forall>l\<in>set ls. tidy_line l" by (simp add: list_all_iff)
  from h echo_line_framed [OF _ t, of e]
  show "clean_response (e @ NL # join_nl ls) = join_nl ls"
    and "clean_response (join_nl ls @ NL # e) = join_nl ls"
    by simp_all
qed

theorem clean_response_removes_model_lines_witness:
  "clean_response (u ''model=llama3 done=True\<newline>Point one\<newline>Point two'')
     = u ''Point one\<newline>Point two'' \<and>
   clean_response (u ''Point one\<newline>Point two\<newline>model=llama3 done=True'')
     = u ''Point one\<newline>Point two''"
proof -
  let ?ls = "[u ''Point one'', u ''Point two'']"
  let ?e = "u ''model=llama3 done=True''"
  have j: "join_nl ?ls = u ''Point one\<newline>Point two''"
    by (simp add: u_def NL_def)
  have a: "u ''model=llama3 done=True\<newline>Point one\<newline>Point two'' = ?e @ NL # join_nl ?ls"
    by (simp add: u_def NL_def)
  have b: "u ''Point one\<newline>Point two\<newline>model=llama3 done=True'' = join_nl ?ls @ NL # ?e"
    by (simp add: u_def NL_def)
  have 1: "list_all tidy_line ?ls"
    by (simp add: tidy_line_def no_double_space_def no_escape_def keeps_line_def string_defs)
  have 2: "no_wrapper (join_nl ?ls)"
    by (simp add: u_def char_defs)
  have 3: "no_echo (join_nl ?ls)"
    by (simp add: no_echo_def echo_fragments_def u_def char_defs)
  have 4: "contains (u ''model='') ?e" "NL \<notin> set ?e" "STAR \<notin> set ?e"
    by (simp_all add: u_def char_defs)
  from clean_response_removes_model_lines [of _ ?ls ?e] 1 2 3 4
  have "clean_response (?e @ NL # join_nl ?ls) = join_nl ?ls \<and>
        clean_response (join_nl ?ls @ NL # ?e) = join_nl ?ls"
    by blast
  then show ?thesis
    unfolding a b by (simp only: j)
qed

text \<open>
  A line starting with \<open>Example:\<close> is dropped with the \<open>model=\<close> line, and two
  lines around a \<open>model=\<close> line come out as one.
\<close>

theorem other_lines_not_kept_counterexample:
  "clean_response (u ''model=foo\<newline>Example: one'') = [] \<and>
   \<not> other_lines_kept (u ''model=foo\<newline>Example: one'') \<and>
   clean_response (u ''a\<newline>model=foo\<newline>b'') = u ''a b'' \<and>
   \<not> other_lines_kept (u ''a\<newline>model=foo\<newline>b'')"
proof -
  have 1: "clean_response (u ''model=foo\<newline>Example: one'') = []"
    by (simp add: sanitizer_defs)
  have 2: "clean_response (u ''a\<newline>model=foo\<newline>b'') = u ''a b''"
    by (simp add: sanitizer_defs)
  have 3: "\<not> other_lines_kept (u ''model=foo\<newline>Example: one'')"
    unfolding other_lines_kept_def 1 by (simp add: u_def char_defs)
  have 4: "\<not> other_lines_kept (u ''a\<newline>model=foo\<newline>b'')"
    unfolding other_lines_kept_def 2 by (simp add: u_def char_defs)
  from 1 2 3 4 show ?thesis by simp
qed

section \<open>Bullet extractor: the specification's description\<close>

lemma spec_lines_from_eq:
  "spec_lines_from line s = (line @ hd (split_nl s)) # tl (split_nl s)"
proof (induction s arbitrary: line)
  case Nil
  show ?case by simp
next
  case (Cons c cs)
  obtain l ls where "split_nl cs = l # ls"
    using split_nl_not_Nil [of cs] by (cases "split_nl cs") auto
  then show ?case by (simp add: Cons.IH)
qed

lemma spec_lines_eq: "spec_lines_from [] s = split_nl s"
  using split_nl_not_Nil [of s] by (simp add: spec_lines_from_eq)

lemma spec_trim_left_eq: "spec_trim_left l = dropWhile isspace l"
  by (induction l) simp_all

lemma spec_trim_right_eq: "spec_trim_right l = rev (dropWhile isspace (rev l))"
proof (induction l)
  case Nil
  show ?case by simp
next
  case (Cons c cs)
  show ?case
  proof (cases "list_all isspace (c # cs)")
    case True
    then have "dropWhile isspace (rev (c # cs)) = []" by (simp add: list_all_iff)
    with True show ?thesis by (simp del: dropWhile_eq_Nil_conv)
  next
    case False
    show ?thesis
    proof (cases "\<forall>x\<in>set cs. isspace x")
      case True
      with False have c: "\<not> isspace c" by (simp add: list_all_iff)
      from True have "dropWhile isspace (rev cs) = []" by simp
      then have "rev (dropWhile isspace (rev cs)) = []" by (simp del: dropWhile_eq_Nil_conv)
      with Cons.IH have t: "spec_trim_right cs = []" by simp
      have "dropWhile isspace (rev cs @ [c]) = [c]"
        using True c by (simp add: dropWhile_append)
      then show ?thesis using False t by simp
    next
      case nall: False
      then have "dropWhile isspace (rev cs @ [c]) = dropWhile isspace (rev cs) @ [c]"
        by (auto simp: dropWhile_append)
      then show ?thesis using False Cons.IH by simp
    qed
  qed
qed

lemma spec_trim_eq: "spec_trim l = strip l"
  by (simp add: spec_trim_def strip_def spec_trim_left_eq spec_trim_right_eq)

lemma find_close_bold_spec:
  "find_close_bold s =
     map_option (\<lambda>n. (take n s, drop (n + 2) s)) (spec_closing [STAR, STAR] s)"
  by (induction s rule: find_close_bold.induct)
     (auto simp: option.map_comp comp_def)

lemma find_close_italic_spec:
  "find_close_italic s =
     map_option (\<lambda>n. (take n s, drop (n + 1) s)) (spec_closing [STAR] s)"
  by (induction s) (auto simp: option.map_comp comp_def)

lemma strip_bold_spec: "strip_bold s = spec_unwrap [STAR, STAR] s"
proof (induction s rule: strip_bold.induct)
  case 1
  show ?case by (simp add: spec_unwrap.simps)
next
  case (2 c)
  show ?case by (simp add: spec_unwrap.simps)
next
  case (3 c d cs)
  show ?case
  proof (cases "c = STAR \<and> d = STAR")
    case True
    show ?thesis
    proof (cases "spec_closing [STAR, STAR] cs")
      case None
      then have f: "find_close_bold cs = None" by (simp add: find_close_bold_spec)
      have "strip_bold (d # cs) = spec_unwrap [STAR, STAR] (d # cs)"
        using "3.IH" True f by simp
      then show ?thesis
        by (subst spec_unwrap.simps) (simp add: True None f)
    next
      case (Some n)
      then have f: "find_close_bold cs = Some (take n cs, drop (n + 2) cs)"
        by (simp add: find_close_bold_spec)
      have "strip_bold (drop (n + 2) cs) = spec_unwrap [STAR, STAR] (drop (n + 2) cs)"
        using "3.IH" True f by simp
      then show ?thesis
        by (subst spec_unwrap.simps) (simp add: True Some f add.commute)
    qed
  next
    case False
    then have "strip_bold (d # cs) = spec_unwrap [STAR, STAR] (d # cs)" using "3.IH" by simp
    then show ?thesis using False
      by (subst spec_unwrap.simps) auto
  qed
qed

lemma strip_italic_spec: "strip_italic s = spec_unwrap [STAR] s"
proof (induction s rule: strip_italic.induct)
  case 1
  show ?case by (simp add: spec_unwrap.simps)
next
  case (2 c cs)
  show ?case
  proof (cases "c = STAR")
    case True
    show ?thesis
    proof (cases "spec_closing [STAR] cs")
      case None
      then have f: "find_close_italic cs = None" by (simp add: find_close_italic_spec)
      have "strip_italic cs = spec_unwrap [STAR] cs"
        using "2.IH" True f by simp
      then show ?thesis
        by (subst spec_unwrap.simps) (simp add: True None f)
    next
      case (Some n)
      then have f: "find_close_italic cs = Some (take n cs, drop (n + 1) cs)"
        by (simp add: find_close_italic_spec)
      have "strip_italic (drop (n + 1) cs) = spec_unwrap [STAR] (drop (n + 1) cs)"
        using "2.IH" True f by simp
      then show ?thesis
        by (subst spec_unwrap.simps) (simp add: True Some f)
    qed
  next
    case False
    then have "strip_italic cs = spec_unwrap [STAR] cs" using "2.IH" by simp
    then show ?thesis using False
      by (subst spec_unwrap.simps) simp
  qed
qed

text \<open>
  C8.  \<open>_extract_bullet_points\<close> computes what the specification describes: the lines
  are trimmed and the empty ones dropped; each remaining line loses one leading bullet
  glyph with the whitespace behind it, then a leading \<open><digits>.\<close> with the whitespace
  behind it, then its emphasis markup; lines that became empty are dropped and the order
  is kept.  On the example of the specification the result is \<open>A\<close>, \<open>B\<close>, \<open>C\<close>; a
  second example has untrimmed lines, emphasis of both kinds and a line that becomes
  empty.
\<close>

theorem extract_bullet_points_refines_spec:
  "extract_bullet_points txt = spec_extract_bullets txt \<and>
   extract_bullet_points (BULLET # u '' A\<newline>- B\<newline>1. C\<newline>\<newline>'') = [u ''A'', u ''B'', u ''C''] \<and>
   extract_bullet_points (u ''  - **Bold** and *it*  \<newline> 2.  **a*b**\<newline>-'')
     = [u ''Bold and it'', u ''a*b'']"
proof (intro conjI)
  have "clean_bullet = (\<lambda>l. spec_strip_emphasis (spec_strip_numbering (spec_strip_glyph l)))"
    by (rule ext)
       (simp add: clean_bullet_def spec_strip_emphasis_def spec_strip_numbering_eq
          spec_strip_glyph_eq strip_bold_spec strip_italic_spec)
  moreover have "map spec_trim = map strip"
    by (rule ext) (simp add: spec_trim_eq)
  ultimately show "extract_bullet_points txt = spec_extract_bullets txt"
    by (simp add: extract_bullet_points_def spec_extract_bullets_def bullet_loop_eq spec_lines_eq)
  show "extract_bullet_points (BULLET # u '' A\<newline>- B\<newline>1. C\<newline>\<newline>'') = [u ''A'', u ''B'', u ''C'']"
    by (simp add: sanitizer_defs)
  show "extract_bullet_points (u ''  - **Bold** and *it*  \<newline> 2.  **a*b**\<newline>-'')
     = [u ''Bold and it'', u ''a*b'']"
    by (simp add: sanitizer_defs)
qed

end
